theory Spec2Isabelle
  imports Main "HOL-Library.Word" "HOL-Library.Multiset"
begin

unbundle bit_operations_syntax

section \<open>Zobrist keys (zobrist.c)\<close>

text \<open>
  \<^verbatim>\<open>rand64\<close> keeps its state in a function-local static \<^verbatim>\<open>seed\<close>; the model passes
  the seed in and returns the drawn key together with the new seed. All arithmetic is on
  \<^verbatim>\<open>uint64_t\<close>, so the type is \<^typ>\<open>64 word\<close>: \<open>>>\<close> is \<open>drop_bit\<close>, \<open><<\<close> is
  \<open>push_bit\<close>, and the multiplication wraps.
\<close>

definition rand64 :: "64 word \<Rightarrow> 64 word \<times> 64 word" where
  "rand64 seed =
     (let s1 = seed XOR drop_bit 12 seed;
          s2 = s1 XOR push_bit 25 s1;
          s3 = s2 XOR drop_bit 27 s2
      in (s3 * 2685821657736338717, s3))"

text \<open>
  The constants of \<^verbatim>\<open>types.h\<close> and \<^verbatim>\<open>castle.h\<close> that \<^verbatim>\<open>initZobrist\<close> uses are not
  part of the sources at hand; they are parameters of the model.
\<close>

record zobrist_consts =
  PAWN :: nat
  KING :: nat
  WHITE :: nat
  BLACK :: nat
  SQUARE_NB :: nat
  FILE_NB :: nat
  makePiece :: "nat \<Rightarrow> nat \<Rightarrow> nat"
  WHITE_PAWN :: nat
  BLACK_PAWN :: nat
  WHITE_KING :: nat
  BLACK_KING :: nat
  WHITE_KING_RIGHTS :: nat
  WHITE_QUEEN_RIGHTS :: nat
  BLACK_KING_RIGHTS :: nat
  BLACK_QUEEN_RIGHTS :: nat

text \<open>
  The global tables and the seed. An array is a function from its index; indices beyond
  the declared bounds are not distinguished.
\<close>

record zobrist_t =
  seed :: "64 word"
  ZobristKeys :: "nat \<Rightarrow> nat \<Rightarrow> 64 word"
  ZobristPawnKingKeys :: "nat \<Rightarrow> nat \<Rightarrow> 64 word"
  ZobristEnpassKeys :: "nat \<Rightarrow> 64 word"
  ZobristCastleKeys :: "nat \<Rightarrow> 64 word"
  ZobristTurnKey :: "64 word"

definition draw :: "zobrist_t \<Rightarrow> 64 word \<times> zobrist_t" where
  "draw z = (fst (rand64 (seed z)), z\<lparr>seed := snd (rand64 (seed z))\<rparr>)"

definition set_key :: "nat \<Rightarrow> nat \<Rightarrow> 64 word \<Rightarrow> zobrist_t \<Rightarrow> zobrist_t" where
  "set_key p sq k z = z\<lparr>ZobristKeys := (ZobristKeys z)(p := (ZobristKeys z p)(sq := k))\<rparr>"

definition set_pawn_king_key :: "nat \<Rightarrow> nat \<Rightarrow> 64 word \<Rightarrow> zobrist_t \<Rightarrow> zobrist_t" where
  "set_pawn_king_key p sq k z =
     z\<lparr>ZobristPawnKingKeys := (ZobristPawnKingKeys z)(p := (ZobristPawnKingKeys z p)(sq := k))\<rparr>"

definition set_castle_key :: "nat \<Rightarrow> 64 word \<Rightarrow> zobrist_t \<Rightarrow> zobrist_t" where
  "set_castle_key cr k z = z\<lparr>ZobristCastleKeys := (ZobristCastleKeys z)(cr := k)\<rparr>"

text \<open>The body of the two nested loops over piece types and squares.\<close>

definition init_piece_square :: "zobrist_consts \<Rightarrow> nat \<Rightarrow> nat \<Rightarrow> zobrist_t \<Rightarrow> zobrist_t" where
  "init_piece_square c pt sq z =
     (let (k1, z1) = draw z;
          z2 = set_key (makePiece c pt (WHITE c)) sq k1 z1;
          (k2, z3) = draw z2
      in set_key (makePiece c pt (BLACK c)) sq k2 z3)"

definition init_piece_keys :: "zobrist_consts \<Rightarrow> zobrist_t \<Rightarrow> zobrist_t" where
  "init_piece_keys c z =
     fold (\<lambda>pt. fold (init_piece_square c pt) [0..<SQUARE_NB c]) [PAWN c..<Suc (KING c)] z"

definition init_pawn_king_square :: "zobrist_consts \<Rightarrow> nat \<Rightarrow> zobrist_t \<Rightarrow> zobrist_t" where
  "init_pawn_king_square c sq z =
     (let z1 = set_pawn_king_key (WHITE_PAWN c) sq (ZobristKeys z (WHITE_PAWN c) sq) z;
          z2 = set_pawn_king_key (BLACK_PAWN c) sq (ZobristKeys z1 (BLACK_PAWN c) sq) z1;
          z3 = set_pawn_king_key (WHITE_KING c) sq (ZobristKeys z2 (WHITE_KING c) sq) z2
      in set_pawn_king_key (BLACK_KING c) sq (ZobristKeys z3 (BLACK_KING c) sq) z3)"

definition init_pawn_king_keys :: "zobrist_consts \<Rightarrow> zobrist_t \<Rightarrow> zobrist_t" where
  "init_pawn_king_keys c z = fold (init_pawn_king_square c) [0..<SQUARE_NB c] z"

definition init_enpass_file :: "nat \<Rightarrow> zobrist_t \<Rightarrow> zobrist_t" where
  "init_enpass_file f z =
     (let (k, z1) = draw z in z1\<lparr>ZobristEnpassKeys := (ZobristEnpassKeys z1)(f := k)\<rparr>)"

definition init_enpass_keys :: "zobrist_consts \<Rightarrow> zobrist_t \<Rightarrow> zobrist_t" where
  "init_enpass_keys c z = fold init_enpass_file [0..<FILE_NB c] z"

text \<open>Lines 68 to 71: one key is drawn for each of the four castling rights.\<close>

definition init_castle_rights :: "zobrist_consts \<Rightarrow> zobrist_t \<Rightarrow> zobrist_t" where
  "init_castle_rights c z =
     (let (k1, z1) = draw z;
          z2 = set_castle_key (WHITE_KING_RIGHTS c) k1 z1;
          (k2, z3) = draw z2;
          z4 = set_castle_key (WHITE_QUEEN_RIGHTS c) k2 z3;
          (k3, z5) = draw z4;
          z6 = set_castle_key (BLACK_KING_RIGHTS c) k3 z5;
          (k4, z7) = draw z6
      in set_castle_key (BLACK_QUEEN_RIGHTS c) k4 z7)"

text \<open>
  One right inside the body of the combining loop:
  \<^verbatim>\<open>if (cr & R) ZobristCastleKeys[cr] ^= ZobristCastleKeys[R];\<close>
\<close>

definition combine_right :: "nat \<Rightarrow> nat \<Rightarrow> zobrist_t \<Rightarrow> zobrist_t" where
  "combine_right cr r z =
     (if cr AND r \<noteq> 0
      then set_castle_key cr (ZobristCastleKeys z cr XOR ZobristCastleKeys z r) z
      else z)"

definition combine_castle :: "zobrist_consts \<Rightarrow> nat \<Rightarrow> zobrist_t \<Rightarrow> zobrist_t" where
  "combine_castle c cr z =
     combine_right cr (BLACK_QUEEN_RIGHTS c)
       (combine_right cr (BLACK_KING_RIGHTS c)
         (combine_right cr (WHITE_QUEEN_RIGHTS c)
           (combine_right cr (WHITE_KING_RIGHTS c) z)))"

definition combine_castle_keys :: "zobrist_consts \<Rightarrow> zobrist_t \<Rightarrow> zobrist_t" where
  "combine_castle_keys c z = fold (combine_castle c) [0..<16] z"

definition init_turn_key :: "zobrist_t \<Rightarrow> zobrist_t" where
  "init_turn_key z = (let (k, z1) = draw z in z1\<lparr>ZobristTurnKey := k\<rparr>)"

text \<open>
  The state of \<^verbatim>\<open>initZobrist\<close> after line 71, when the four keys have been drawn and the
  combining loop has not started; and the whole function.
\<close>

definition castle_rights_drawn :: "zobrist_consts \<Rightarrow> zobrist_t \<Rightarrow> zobrist_t" where
  "castle_rights_drawn c z =
     init_castle_rights c (init_enpass_keys c (init_pawn_king_keys c (init_piece_keys c z)))"

definition initZobrist :: "zobrist_consts \<Rightarrow> zobrist_t \<Rightarrow> zobrist_t" where
  "initZobrist c z = init_turn_key (combine_castle_keys c (castle_rights_drawn c z))"

text \<open>
  The state at program start: static storage is zero, the seed is the constant of
  \<^verbatim>\<open>rand64\<close>.
\<close>

definition zobrist_start :: zobrist_t where
  "zobrist_start =
     \<lparr>seed = 1070372, ZobristKeys = (\<lambda>_ _. 0), ZobristPawnKingKeys = (\<lambda>_ _. 0),
      ZobristEnpassKeys = (\<lambda>_. 0), ZobristCastleKeys = (\<lambda>_. 0), ZobristTurnKey = 0\<rparr>"

text \<open>
  The values that these constants have in Ethereal, used where a concrete instance is
  needed.
\<close>

definition ethereal_zobrist_consts :: zobrist_consts where
  "ethereal_zobrist_consts =
     \<lparr>PAWN = 0, KING = 5, WHITE = 0, BLACK = 1, SQUARE_NB = 64, FILE_NB = 8,
      makePiece = (\<lambda>pt c. pt * 4 + c),
      WHITE_PAWN = 0, BLACK_PAWN = 1, WHITE_KING = 20, BLACK_KING = 21,
      WHITE_KING_RIGHTS = 1, WHITE_QUEEN_RIGHTS = 2,
      BLACK_KING_RIGHTS = 4, BLACK_QUEEN_RIGHTS = 8\<rparr>"

section \<open>Search (search.c)\<close>

subsection \<open>Data\<close>

text \<open>
  \<^verbatim>\<open>move_t\<close> is a packed scalar. The headers that declare \<^verbatim>\<open>board_t\<close>,
  \<^verbatim>\<open>search_tree_t\<close> and \<^verbatim>\<open>principle_variation_t\<close> are not part of the sources at hand; the
  records below hold the fields that \<^verbatim>\<open>search.c\<close> reads and writes. A board may carry
  further fields (the record is extensible), and the collaborators may depend on them.
  An array is a function from its index. C's \<^verbatim>\<open>int\<close> is modelled by \<^typ>\<open>int\<close>: scores are
  sums of a few piece values and stay far from the bounds of the machine type.
\<close>

type_synonym move_t = int

record board_t =
  turn :: int
  squares :: "int \<Rightarrow> int"
  piece_locations :: "int \<Rightarrow> int list"
  pawn_locations :: "int \<Rightarrow> int list"
  pawn_counts :: "int \<Rightarrow> int"

record principle_variation_t =
  line :: "int \<Rightarrow> move_t"
  length_pv :: int

text \<open>
  The last two fields are not fields of the C struct. \<open>time_calls\<close> counts the calls of
  \<^verbatim>\<open>time(NULL)\<close> made so far, so that the clock can be any sequence of readings;
  \<open>applied\<close> lists the moves handed to \<^verbatim>\<open>apply_move\<close>, oldest first.
\<close>

record 'x search_tree_t =
  ply :: int
  raw_nodes :: int
  alpha_beta_nodes :: int
  quiescence_nodes :: int
  board :: "'x board_t_scheme"
  principle_variation :: principle_variation_t
  killer_moves :: "int \<Rightarrow> int \<Rightarrow> move_t"
  depth_one_values :: "int \<Rightarrow> int"
  time_calls :: nat
  applied :: "move_t list"

text \<open>The globals of \<^verbatim>\<open>search.c\<close>; only \<^verbatim>\<open>get_best_move\<close> writes them.\<close>

record globals =
  StartTime :: int
  EndTime :: int
  EvaluatingPlayer :: int

text \<open>The macros and constants that \<^verbatim>\<open>evaluate_board\<close> takes from headers.\<close>

record eval_consts =
  PIECE_TYPE :: "int \<Rightarrow> int"
  QueenFlag :: int
  RookFlag :: int
  BishopFlag :: int
  KnightFlag :: int
  QueenValue :: int
  RookValue :: int
  BishopValue :: int
  KnightValue :: int
  PawnValue :: int
  QUEEN_POSITION_VALUE :: "int \<Rightarrow> int"
  ROOK_POSITION_VALUE :: "int \<Rightarrow> int"
  BISHOP_POSITION_VALUE :: "int \<Rightarrow> int"
  KNIGHT_POSITION_VALUE :: "int \<Rightarrow> int"
  WHITE_PAWN_POSITION_VALUE :: "int \<Rightarrow> int"
  BLACK_PAWN_POSITION_VALUE :: "int \<Rightarrow> int"
  ColourWhite :: int
  ColourBlack :: int

text \<open>
  The collaborators of the search (move generator, make and unmake, check test), the
  move macros, the constants, and the environment: \<open>time_now n\<close> is what the \<open>n\<close>-th call
  of \<^verbatim>\<open>time(NULL)\<close> returns, and \<open>stack_pv n\<close> is the indeterminate content of the local
  \<^verbatim>\<open>lpv\<close> of the call of \<^verbatim>\<open>alpha_beta_prune\<close> that made the \<open>n\<close>-th reading of the clock, which
  the call never initialises. \<open>LineSize\<close> is the number of elements of the array \<^verbatim>\<open>line\<close> of a
  \<^verbatim>\<open>principle_variation_t\<close>, which the absent header fixes.
\<close>

record 'x collaborators =
  gen_all_moves :: "'x board_t_scheme \<Rightarrow> move_t list"
  gen_all_captures :: "'x board_t_scheme \<Rightarrow> move_t list"
  apply_move :: "'x board_t_scheme \<Rightarrow> move_t \<Rightarrow> 'x board_t_scheme"
  revert_move :: "'x board_t_scheme \<Rightarrow> move_t \<Rightarrow> 'x board_t_scheme"
  is_not_in_check :: "'x board_t_scheme \<Rightarrow> int \<Rightarrow> bool"
  MOVE_GET_CAPTURE :: "move_t \<Rightarrow> int"
  MOVE_GET_FROM :: "move_t \<Rightarrow> int"
  IS_EMPTY :: "int \<Rightarrow> bool"
  CheckMate :: int
  MaxDepth :: int
  LineSize :: int
  evaluation :: eval_consts
  time_now :: "nat \<Rightarrow> int"
  stack_pv :: "nat \<Rightarrow> principle_variation_t"

subsection \<open>C operators\<close>

definition c_not :: "int \<Rightarrow> int" where
  "c_not x = (if x = 0 then 1 else 0)"

text \<open>Integer division of C rounds towards zero; the divisor is not zero.\<close>

definition c_div :: "int \<Rightarrow> int \<Rightarrow> int" where
  "c_div a b = (if (a < 0) = (b < 0) then \<bar>a\<bar> div \<bar>b\<bar> else - (\<bar>a\<bar> div \<bar>b\<bar>))"

subsection \<open>\<^verbatim>\<open>evaluate_board\<close>\<close>

text \<open>
  The location arrays end with the sentinel \<open>-1\<close>; a loop
  \<^verbatim>\<open>for (location = &a[k]; *location != -1; location++)\<close> visits the entries from index
  \<open>k\<close> up to the sentinel. The list holds the array with its sentinel; without one the
  loop of the C code leaves the array, and the model stops at the end of the list.
\<close>

definition locations_from :: "nat \<Rightarrow> int list \<Rightarrow> int list" where
  "locations_from k xs = takeWhile (\<lambda>l. l \<noteq> - 1) (drop k xs)"

definition piece_term :: "eval_consts \<Rightarrow> 'x board_t_scheme \<Rightarrow> int \<Rightarrow> int" where
  "piece_term c b loc =
     (let pt = PIECE_TYPE c (squares b loc)
      in if pt = QueenFlag c then QueenValue c + QUEEN_POSITION_VALUE c loc
         else if pt = RookFlag c then RookValue c + ROOK_POSITION_VALUE c loc
         else if pt = BishopFlag c then BishopValue c + BISHOP_POSITION_VALUE c loc
         else if pt = KnightFlag c then KnightValue c + KNIGHT_POSITION_VALUE c loc
         else 0)"

definition pawn_term :: "eval_consts \<Rightarrow> int \<Rightarrow> int \<Rightarrow> int" where
  "pawn_term c t loc =
     (if t = ColourWhite c then WHITE_PAWN_POSITION_VALUE c loc
      else if t = ColourBlack c then BLACK_PAWN_POSITION_VALUE c loc
      else 0)"

definition evaluate_board :: "eval_consts \<Rightarrow> 'x board_t_scheme \<Rightarrow> int" where
  "evaluate_board c b =
     (let t = turn b;
          v1 = sum_list (map (piece_term c b) (locations_from 1 (piece_locations b t)));
          v2 = v1 - sum_list (map (piece_term c b) (locations_from 1 (piece_locations b (c_not t))));
          v3 = v2 + PawnValue c * (pawn_counts b t - pawn_counts b (c_not t));
          v4 = v3 + sum_list (map (pawn_term c t) (locations_from 0 (pawn_locations b t)))
      in v4 - sum_list (map (pawn_term c t) (locations_from 0 (pawn_locations b (c_not t)))))"

subsection \<open>Move ordering\<close>

text \<open>
  \<^verbatim>\<open>order_by_value\<close>: the inner loop over \<open>j\<close> and the outer loop over \<open>i\<close>. Both arrays
  hold at least \<open>sz\<close> entries (the parameter \<^verbatim>\<open>size\<close>).
\<close>

function order_inner :: "nat \<Rightarrow> nat \<Rightarrow> nat \<Rightarrow> move_t list \<times> int list \<Rightarrow> move_t list \<times> int list" where
  "order_inner i j sz mv =
     (if j < sz
      then order_inner i (Suc j) sz
             (if snd mv ! j > snd mv ! i
              then ((fst mv)[j := fst mv ! i, i := fst mv ! j],
                    (snd mv)[j := snd mv ! i, i := snd mv ! j])
              else mv)
      else mv)"
  by pat_completeness auto
termination
  by (relation "measure (\<lambda>(i, j, sz, mv). sz - j)") auto

function order_outer :: "nat \<Rightarrow> nat \<Rightarrow> move_t list \<times> int list \<Rightarrow> move_t list \<times> int list" where
  "order_outer i sz mv =
     (if i < sz then order_outer (Suc i) sz (order_inner i (Suc i) sz mv) else mv)"
  by pat_completeness auto
termination
  by (relation "measure (\<lambda>(i, sz, mv). sz - i)") auto

definition order_by_value :: "move_t list \<Rightarrow> int list \<Rightarrow> nat \<Rightarrow> move_t list \<times> int list" where
  "order_by_value moves values sz = order_outer 0 sz (moves, values)"

text \<open>
  \<^verbatim>\<open>basic_heuristic\<close>: the score of one move, then the sort. The division by the content
  of the origin square is undefined in C when that content is zero; the model then has no
  result.
\<close>

definition heuristic_value :: "'x collaborators \<Rightarrow> 'x search_tree_t \<Rightarrow> move_t \<Rightarrow> int option" where
  "heuristic_value ops t m =
     (let cap = MOVE_GET_CAPTURE ops m;
          mover = squares (board t) (MOVE_GET_FROM ops m);
          arr = killer_moves t (ply t)
      in if mover = 0 then None
         else Some (c_div (if IS_EMPTY ops cap then 0 else cap) mover
                    + (if arr 0 = m then 1500 else if arr 1 = m then 1000
                       else if arr 2 = m then 500 else 0)
                    + (if m = line (principle_variation t) (ply t - 1) then 30000 else 0)))"

definition basic_heuristic :: "'x collaborators \<Rightarrow> 'x search_tree_t \<Rightarrow> move_t list \<Rightarrow> move_t list option" where
  "basic_heuristic ops t moves =
     (case those (map (heuristic_value ops t) moves) of
        None \<Rightarrow> None
      | Some values \<Rightarrow> Some (fst (order_by_value moves values (length moves))))"

definition update_killer_heuristic :: "'x search_tree_t \<Rightarrow> move_t \<Rightarrow> 'x search_tree_t" where
  "update_killer_heuristic t m =
     (let arr = killer_moves t (ply t);
          arr1 = arr(2 := arr 1);
          arr2 = arr1(1 := arr1 0);
          arr3 = arr2(0 := m)
      in t\<lparr>killer_moves := (killer_moves t)(ply t := arr3)\<rparr>)"

text \<open>
  Lines 105 to 107 of \<^verbatim>\<open>alpha_beta_prune\<close>. At the root \<^verbatim>\<open>order_by_value\<close> sorts the moves
  together with \<^verbatim>\<open>depth_one_values\<close>, in place; line 107 then calls \<^verbatim>\<open>basic_heuristic\<close> in
  either case.
\<close>

definition order_moves :: "'x collaborators \<Rightarrow> 'x search_tree_t \<Rightarrow> move_t list \<Rightarrow> (move_t list \<times> 'x search_tree_t) option" where
  "order_moves ops t moves =
     (let sz = length moves;
          first =
            (if ply t = 1
             then (let (ms, vs) = order_by_value moves
                                    (map (\<lambda>k. depth_one_values t (int k)) [0..<sz]) sz
                   in Some (ms, t\<lparr>depth_one_values :=
                              (\<lambda>k. if 0 \<le> k \<and> k < int sz then vs ! nat k
                                   else depth_one_values t k)\<rparr>))
             else (case basic_heuristic ops t moves of
                     None \<Rightarrow> None | Some ms \<Rightarrow> Some (ms, t)))
      in case first of
           None \<Rightarrow> None
         | Some (ms, t1) \<Rightarrow>
             (case basic_heuristic ops t1 ms of
                None \<Rightarrow> None | Some ms2 \<Rightarrow> Some (ms2, t1)))"

subsection \<open>The two searches\<close>

text \<open>
  The parameter \<^verbatim>\<open>pv\<close> of \<^verbatim>\<open>alpha_beta_prune\<close> is a pointer. \<^verbatim>\<open>get_best_move\<close> passes
  \<^verbatim>\<open>&(tree.principle_variation)\<close>, so that a write through \<^verbatim>\<open>pv\<close> changes the tree that the
  deeper calls read; a recursive call passes the address of the caller's local \<^verbatim>\<open>lpv\<close>.
\<close>

datatype pv_arg = Tree_pv | Caller_lpv principle_variation_t

definition read_pv :: "pv_arg \<Rightarrow> 'x search_tree_t \<Rightarrow> principle_variation_t" where
  "read_pv p t = (case p of Tree_pv \<Rightarrow> principle_variation t | Caller_lpv l \<Rightarrow> l)"

definition write_pv ::
  "(principle_variation_t \<Rightarrow> principle_variation_t) \<Rightarrow> pv_arg \<Rightarrow> 'x search_tree_t
   \<Rightarrow> pv_arg \<times> 'x search_tree_t" where
  "write_pv f p t =
     (case p of
        Tree_pv \<Rightarrow> (Tree_pv, t\<lparr>principle_variation := f (principle_variation t)\<rparr>)
      | Caller_lpv l \<Rightarrow> (Caller_lpv (f l), t))"

text \<open>
  Lines 135 to 137:
  \<^verbatim>\<open>pv->line[0] = moves[i]; memcpy(pv->line + 1, lpv.line, sizeof(move_t) * lpv.length);
  pv->length = lpv.length + 1;\<close>
  The copy takes \<^verbatim>\<open>lpv.length\<close> moves from the start of \<^verbatim>\<open>lpv.line\<close> to \<^verbatim>\<open>pv->line\<close> from index
  1 on. It stays within the two arrays when \<open>0 \<le> lpv.length\<close> and
  \<open>lpv.length + 1 \<le> LineSize\<close>. With any other length (a negative one is converted to a
  huge \<^verbatim>\<open>size_t\<close>) the copy runs over the end of both arrays: the behaviour of the C code
  is undefined, and the model has no result.
\<close>

definition prepend_pv ::
  "'x collaborators \<Rightarrow> move_t \<Rightarrow> principle_variation_t \<Rightarrow> principle_variation_t
   \<Rightarrow> principle_variation_t option" where
  "prepend_pv ops m lpv pv =
     (if 0 \<le> length_pv lpv \<and> length_pv lpv + 1 \<le> LineSize ops
      then Some (pv\<lparr>line := (\<lambda>k. if k = 0 then m
                                 else if 1 \<le> k \<and> k \<le> length_pv lpv then line lpv (k - 1)
                                 else line pv k),
                   length_pv := length_pv lpv + 1\<rparr>)
      else None)"

text \<open>\<^verbatim>\<open>EndTime < time(NULL)\<close>: the test, and the tree after the clock has been read.\<close>

definition time_expired :: "'x collaborators \<Rightarrow> globals \<Rightarrow> 'x search_tree_t \<Rightarrow> bool \<times> 'x search_tree_t" where
  "time_expired ops g t =
     (EndTime g < time_now ops (time_calls t), t\<lparr>time_calls := Suc (time_calls t)\<rparr>)"

text \<open>\<^verbatim>\<open>tree->board.turn == EvaluatingPlayer ? -CheckMate : CheckMate\<close>\<close>

definition abort_score :: "'x collaborators \<Rightarrow> globals \<Rightarrow> 'x search_tree_t \<Rightarrow> int" where
  "abort_score ops g t =
     (if turn (board t) = EvaluatingPlayer g then - CheckMate ops else CheckMate ops)"

definition do_apply :: "'x collaborators \<Rightarrow> 'x search_tree_t \<Rightarrow> move_t \<Rightarrow> 'x search_tree_t" where
  "do_apply ops t m = t\<lparr>board := apply_move ops (board t) m, applied := applied t @ [m]\<rparr>"

definition do_revert :: "'x collaborators \<Rightarrow> 'x search_tree_t \<Rightarrow> move_t \<Rightarrow> 'x search_tree_t" where
  "do_revert ops t m = t\<lparr>board := revert_move ops (board t) m\<rparr>"

text \<open>The variables that the loop of \<^verbatim>\<open>quiescence_search\<close> changes.\<close>

record 'x qs_vars =
  q_tree :: "'x search_tree_t"
  q_alpha :: int
  q_best :: int

text \<open>
  The loop \<^verbatim>\<open>for (i = size-1; i >= 0; i--)\<close> of \<^verbatim>\<open>quiescence_search\<close>, with \<open>Suc i\<close>
  iterations left: it handles \<^verbatim>\<open>moves[i]\<close> and goes on with \<open>i\<close> iterations left. \<open>rec\<close> is
  the recursive call.
\<close>

primrec quiescence_loop ::
  "(int \<Rightarrow> int \<Rightarrow> 'x search_tree_t \<Rightarrow> (int \<times> 'x search_tree_t) option) \<Rightarrow> 'x collaborators
   \<Rightarrow> int \<Rightarrow> move_t list \<Rightarrow> nat \<Rightarrow> 'x qs_vars \<Rightarrow> 'x qs_vars option" where
  "quiescence_loop rec ops beta moves 0 v = Some v"
| "quiescence_loop rec ops beta moves (Suc i) v =
     (let m = moves ! i;
          t1 = do_apply ops (q_tree v) m
      in if is_not_in_check ops (board t1) (c_not (turn (board t1)))
         then (case rec (- beta) (- q_alpha v) t1 of
                 None \<Rightarrow> None
               | Some (r, t2) \<Rightarrow>
                   (let val = - r;
                        best = (if val > q_best v then val else q_best v);
                        alpha = (if best > q_alpha v then best else q_alpha v)
                    in if alpha > beta
                       then Some \<lparr>q_tree = do_revert ops (update_killer_heuristic t2 m) m,
                                  q_alpha = alpha, q_best = best\<rparr>
                       else quiescence_loop rec ops beta moves i
                              \<lparr>q_tree = do_revert ops t2 m, q_alpha = alpha, q_best = best\<rparr>))
         else quiescence_loop rec ops beta moves i (v\<lparr>q_tree := do_revert ops t1 m\<rparr>))"

text \<open>
  \<^verbatim>\<open>quiescence_search\<close>. The first argument after the globals bounds the depth of the
  recursion; with none left the model has no result.
\<close>

primrec quiescence_search ::
  "'x collaborators \<Rightarrow> globals \<Rightarrow> nat \<Rightarrow> int \<Rightarrow> int \<Rightarrow> 'x search_tree_t
   \<Rightarrow> (int \<times> 'x search_tree_t) option" where
  "quiescence_search ops g 0 = (\<lambda>alpha beta t. None)"
| "quiescence_search ops g (Suc n) = (\<lambda>alpha beta t.
     (let t1 = t\<lparr>raw_nodes := raw_nodes t + 1, quiescence_nodes := quiescence_nodes t + 1\<rparr>;
          (expired, t2) = time_expired ops g t1
      in if expired then Some (abort_score ops g t2, t2)
         else
           (let best = evaluate_board (evaluation ops) (board t2);
                alpha1 = (if best > alpha then best else alpha)
            in if alpha1 > beta then Some (best, t2)
               else
                 (let t3 = t2\<lparr>ply := ply t2 + 1\<rparr>
                  in case basic_heuristic ops t3 (gen_all_captures ops (board t3)) of
                       None \<Rightarrow> None
                     | Some moves \<Rightarrow>
                         (case quiescence_loop (quiescence_search ops g n) ops beta moves
                                 (length moves) \<lparr>q_tree = t3, q_alpha = alpha1, q_best = best\<rparr> of
                            None \<Rightarrow> None
                          | Some v \<Rightarrow> Some (q_best v, (q_tree v)\<lparr>ply := ply (q_tree v) - 1\<rparr>))))))"

text \<open>
  Lines 117 to 123 of \<^verbatim>\<open>alpha_beta_prune\<close>: the search of one child, with the null
  window first when the first move was the move of the principal variation. The result
  holds the value, the content of \<^verbatim>\<open>lpv\<close> afterwards, and the tree.
\<close>

definition search_child ::
  "(pv_arg \<Rightarrow> int \<Rightarrow> int \<Rightarrow> int \<Rightarrow> 'x search_tree_t \<Rightarrow> (int \<times> pv_arg \<times> 'x search_tree_t) option)
   \<Rightarrow> int \<Rightarrow> int \<Rightarrow> bool \<Rightarrow> nat \<Rightarrow> int \<Rightarrow> principle_variation_t \<Rightarrow> 'x search_tree_t
   \<Rightarrow> (int \<times> principle_variation_t \<times> 'x search_tree_t) option" where
  "search_child rec depth beta first_node_was_pv i alpha lpv t =
     (if i \<noteq> 0 \<and> first_node_was_pv
      then (case rec (Caller_lpv lpv) (depth - 1) (- alpha - 1) (- alpha) t of
              None \<Rightarrow> None
            | Some (r1, p1, t1) \<Rightarrow>
                (if - r1 > alpha \<and> - r1 < beta
                 then (case rec (Caller_lpv (read_pv p1 t1)) (depth - 1) (- beta) (- (- r1)) t1 of
                         None \<Rightarrow> None
                       | Some (r2, p2, t2) \<Rightarrow> Some (- r2, read_pv p2 t2, t2))
                 else Some (- r1, read_pv p1 t1, t1)))
      else (case rec (Caller_lpv lpv) (depth - 1) (- beta) (- alpha) t of
              None \<Rightarrow> None
            | Some (r, p, t1) \<Rightarrow> Some (- r, read_pv p t1, t1)))"

text \<open>The variables that the loop of \<^verbatim>\<open>alpha_beta_prune\<close> changes.\<close>

record 'x ab_vars =
  a_tree :: "'x search_tree_t"
  a_pv :: pv_arg
  a_lpv :: principle_variation_t
  a_alpha :: int
  a_best :: int
  a_valid_size :: int

text \<open>
  Lines 125 to 139: what the loop does with the value \<open>val\<close> of the child reached by
  \<^verbatim>\<open>moves[i]\<close>, where \<open>lpv\<close> is the content of \<^verbatim>\<open>lpv\<close> and \<open>t2\<close> the tree after the search
  of the child. A child that found no legal move, or none that raised its \<open>alpha\<close>, has
  not written \<^verbatim>\<open>lpv\<close>: the length tested at line 134 is then the one that the search of
  an earlier child left or, with none, the indeterminate one. There is no result when
  the copy of line 136 leaves the arrays.
\<close>

definition child_searched ::
  "'x collaborators \<Rightarrow> move_t \<Rightarrow> nat \<Rightarrow> int \<Rightarrow> principle_variation_t \<Rightarrow> 'x search_tree_t
   \<Rightarrow> 'x ab_vars \<Rightarrow> 'x ab_vars option" where
  "child_searched ops m i val lpv t2 v =
     (let t3 = (if ply t2 = 1
                then t2\<lparr>depth_one_values := (depth_one_values t2)(int i := val)\<rparr>
                else t2);
          best = (if val > a_best v then val else a_best v);
          alpha = (if best > a_alpha v then best else a_alpha v);
          w = (if best > a_alpha v \<and> length_pv lpv \<noteq> - 1
               then (case prepend_pv ops m lpv (read_pv (a_pv v) t3) of
                       None \<Rightarrow> None
                     | Some p \<Rightarrow> Some (write_pv (\<lambda>_. p) (a_pv v) t3))
               else Some (a_pv v, t3))
      in case w of
           None \<Rightarrow> None
         | Some (pv1, t4) \<Rightarrow>
             Some \<lparr>a_tree = t4, a_pv = pv1, a_lpv = lpv, a_alpha = alpha, a_best = best,
                   a_valid_size = a_valid_size v + 1\<rparr>)"

text \<open>
  The loop \<^verbatim>\<open>for (i = 0; i < size; i++)\<close> of \<^verbatim>\<open>alpha_beta_prune\<close> over the moves from
  index \<open>i\<close> on.
\<close>

primrec alpha_beta_loop ::
  "(pv_arg \<Rightarrow> int \<Rightarrow> int \<Rightarrow> int \<Rightarrow> 'x search_tree_t \<Rightarrow> (int \<times> pv_arg \<times> 'x search_tree_t) option)
   \<Rightarrow> 'x collaborators \<Rightarrow> int \<Rightarrow> int \<Rightarrow> bool \<Rightarrow> move_t list \<Rightarrow> nat \<Rightarrow> 'x ab_vars
   \<Rightarrow> 'x ab_vars option" where
  "alpha_beta_loop rec ops depth beta first_node_was_pv [] i v = Some v"
| "alpha_beta_loop rec ops depth beta first_node_was_pv (m # ms) i v =
     (let t1 = do_apply ops (a_tree v) m
      in if is_not_in_check ops (board t1) (c_not (turn (board t1)))
         then (case search_child rec depth beta first_node_was_pv i (a_alpha v) (a_lpv v) t1 of
                 None \<Rightarrow> None
               | Some (val, lpv, t2) \<Rightarrow>
                   (case child_searched ops m i val lpv t2 v of
                      None \<Rightarrow> None
                    | Some v1 \<Rightarrow>
                        if a_alpha v1 > beta
                        then Some (v1\<lparr>a_tree :=
                                     do_revert ops (update_killer_heuristic (a_tree v1) m) m\<rparr>)
                        else alpha_beta_loop rec ops depth beta first_node_was_pv ms (Suc i)
                               (v1\<lparr>a_tree := do_revert ops (a_tree v1) m\<rparr>)))
         else alpha_beta_loop rec ops depth beta first_node_was_pv ms (Suc i)
                (v\<lparr>a_tree := do_revert ops t1 m\<rparr>))"

text \<open>
  \<^verbatim>\<open>alpha_beta_prune\<close>. With no move generated \<^verbatim>\<open>moves[0]\<close> is indeterminate; the loop
  then does not run and \<^verbatim>\<open>first_node_was_pv\<close> is not read.
\<close>

primrec alpha_beta_prune ::
  "'x collaborators \<Rightarrow> globals \<Rightarrow> nat \<Rightarrow> pv_arg \<Rightarrow> int \<Rightarrow> int \<Rightarrow> int \<Rightarrow> 'x search_tree_t
   \<Rightarrow> (int \<times> pv_arg \<times> 'x search_tree_t) option" where
  "alpha_beta_prune ops g 0 = (\<lambda>pv depth alpha beta t. None)"
| "alpha_beta_prune ops g (Suc n) = (\<lambda>pv depth alpha beta t.
     (let t1 = t\<lparr>raw_nodes := raw_nodes t + 1, alpha_beta_nodes := alpha_beta_nodes t + 1\<rparr>;
          lpv = stack_pv ops (time_calls t1);
          (expired, t2) = time_expired ops g t1
      in if expired
         then (let (pv1, t3) = write_pv (\<lambda>p. p\<lparr>length_pv := - 1\<rparr>) pv t2
               in Some (abort_score ops g t3, pv1, t3))
         else if depth = 0
         then (let t3 = t2\<lparr>raw_nodes := raw_nodes t2 - 1,
                           alpha_beta_nodes := alpha_beta_nodes t2 - 1\<rparr>;
                   (pv1, t4) = write_pv (\<lambda>p. p\<lparr>length_pv := 0\<rparr>) pv t3
               in case quiescence_search ops g n alpha beta t4 of
                    None \<Rightarrow> None
                  | Some (r, t5) \<Rightarrow> Some (r, pv1, t5))
         else
           (let t3 = t2\<lparr>ply := ply t2 + 1\<rparr>
            in case order_moves ops t3 (gen_all_moves ops (board t3)) of
                 None \<Rightarrow> None
               | Some (moves, t4) \<Rightarrow>
                   (let first_node_was_pv =
                          (case moves of
                             [] \<Rightarrow> False
                           | m0 # _ \<Rightarrow> line (principle_variation t4) (ply t4 - 1) = m0)
                    in case alpha_beta_loop (alpha_beta_prune ops g n) ops depth beta
                              first_node_was_pv moves 0
                              \<lparr>a_tree = t4, a_pv = pv, a_lpv = lpv, a_alpha = alpha,
                               a_best = - CheckMate ops, a_valid_size = 0\<rparr> of
                         None \<Rightarrow> None
                       | Some v \<Rightarrow>
                           (let t5 = a_tree v;
                                best = (if a_valid_size v = 0
                                           \<and> is_not_in_check ops (board t5) (turn (board t5))
                                        then 0 else a_best v)
                            in Some (best, a_pv v, t5\<lparr>ply := ply t5 - 1\<rparr>))))))"

subsection \<open>\<^verbatim>\<open>get_best_move\<close>\<close>

definition init_search_tree_t :: "'x search_tree_t \<Rightarrow> 'x board_t_scheme \<Rightarrow> 'x search_tree_t" where
  "init_search_tree_t t b =
     t\<lparr>ply := 0, raw_nodes := 0, alpha_beta_nodes := 0, quiescence_nodes := 0, board := b,
       principle_variation := (principle_variation t)\<lparr>length_pv := 0\<rparr>\<rparr>"

text \<open>
  Lines 21 to 24: the globals that \<^verbatim>\<open>get_best_move\<close> sets from the board, its parameter
  \<^verbatim>\<open>alloted_time\<close> and the clock.
\<close>

definition get_best_move_globals :: "'x collaborators \<Rightarrow> 'x search_tree_t \<Rightarrow> 'x board_t_scheme \<Rightarrow> int \<Rightarrow> globals" where
  "get_best_move_globals ops t b alloted_time =
     (let alloted_time = 10;
          start = time_now ops (time_calls t)
      in \<lparr>StartTime = start, EndTime = start + alloted_time, EvaluatingPlayer = turn b\<rparr>)"

text \<open>
  The loop of lines 35 to 63 from \<open>depth\<close> on. What it prints is not modelled, but the
  clock is read once for the line that reports the time, and once for the test that
  ends the loop.
\<close>

function deepening :: "'x collaborators \<Rightarrow> globals \<Rightarrow> nat \<Rightarrow> int \<Rightarrow> 'x search_tree_t \<Rightarrow> 'x search_tree_t option" where
  "deepening ops g fuel depth t =
     (if depth < MaxDepth ops
      then (case alpha_beta_prune ops g fuel Tree_pv depth (- CheckMate ops) (CheckMate ops) t of
              None \<Rightarrow> None
            | Some (val, pv, t1) \<Rightarrow>
                (if fst (time_expired ops g (t1\<lparr>time_calls := Suc (time_calls t1)\<rparr>))
                 then Some (snd (time_expired ops g (t1\<lparr>time_calls := Suc (time_calls t1)\<rparr>)))
                 else deepening ops g fuel (depth + 1)
                        (snd (time_expired ops g (t1\<lparr>time_calls := Suc (time_calls t1)\<rparr>)))))
      else Some t)"
  by pat_completeness auto
termination
  by (relation "measure (\<lambda>(ops, g, fuel, depth, t). nat (MaxDepth ops - depth))") auto

text \<open>
  \<^verbatim>\<open>get_best_move\<close>: \<open>t\<close> is the local \<^verbatim>\<open>tree\<close> before its initialisation, whose arrays are
  indeterminate. The result holds the move returned, the globals and the tree at the end.
  The value of \<^verbatim>\<open>evaluate_board\<close> computed at line 33 is not used, and the call changes
  nothing.
\<close>

definition get_best_move ::
  "'x collaborators \<Rightarrow> nat \<Rightarrow> 'x search_tree_t \<Rightarrow> 'x board_t_scheme \<Rightarrow> int
   \<Rightarrow> (move_t \<times> globals \<times> 'x search_tree_t) option" where
  "get_best_move ops fuel t b alloted_time =
     (let g = get_best_move_globals ops t b alloted_time;
          t1 = init_search_tree_t (t\<lparr>time_calls := Suc (time_calls t)\<rparr>) b
      in case deepening ops g fuel 1 t1 of
           None \<Rightarrow> None
         | Some t2 \<Rightarrow> Some (line (principle_variation t2) 0, g, t2))"

section \<open>Hypotheses on the collaborators, and an instance\<close>

text \<open>
  \<^verbatim>\<open>apply_move\<close> and \<^verbatim>\<open>revert_move\<close> are exact inverses when reverting a move just applied
  gives the board back.
\<close>

definition exact_inverses :: "'x collaborators \<Rightarrow> bool" where
  "exact_inverses ops \<longleftrightarrow> (\<forall>b m. revert_move ops (apply_move ops b m) m = b)"

text \<open>
  What makes the two searches return: every capture lowers a measure \<open>\<mu>\<close> of the board
  (it takes a piece off it) and no other move raises it, and the origin square of a
  generated move holds a piece, so that its content, by which \<^verbatim>\<open>basic_heuristic\<close> divides,
  is not zero.
\<close>

definition captures_shrink :: "'x collaborators \<Rightarrow> ('x board_t_scheme \<Rightarrow> nat) \<Rightarrow> bool" where
  "captures_shrink ops \<mu> \<longleftrightarrow>
     (\<forall>b. \<forall>m\<in>set (gen_all_captures ops b). \<mu> (apply_move ops b m) < \<mu> b)"

definition captures_have_mover :: "'x collaborators \<Rightarrow> bool" where
  "captures_have_mover ops \<longleftrightarrow>
     (\<forall>b. \<forall>m\<in>set (gen_all_captures ops b). squares b (MOVE_GET_FROM ops m) \<noteq> 0)"

definition moves_keep :: "'x collaborators \<Rightarrow> ('x board_t_scheme \<Rightarrow> nat) \<Rightarrow> bool" where
  "moves_keep ops \<mu> \<longleftrightarrow>
     (\<forall>b. \<forall>m\<in>set (gen_all_moves ops b). \<mu> (apply_move ops b m) \<le> \<mu> b)"

definition moves_have_mover :: "'x collaborators \<Rightarrow> bool" where
  "moves_have_mover ops \<longleftrightarrow>
     (\<forall>b. \<forall>m\<in>set (gen_all_moves ops b). squares b (MOVE_GET_FROM ops m) \<noteq> 0)"

text \<open>
  What keeps the copy of line 136 within the arrays: every indeterminate length that a
  local \<^verbatim>\<open>lpv\<close> starts with is \<open>-1\<close> or lies between 0 and a bound \<open>G\<close>. \<open>length_within K l\<close>
  says the same of the length of one variation, and \<open>pv_within K p p'\<close> relates what the
  parameter \<^verbatim>\<open>pv\<close> points to at the entry and at the exit of a call: the same object,
  whose length is within \<open>K\<close> at the exit if it was at the entry.
\<close>

definition stack_lengths :: "'x collaborators \<Rightarrow> nat \<Rightarrow> bool" where
  "stack_lengths ops G \<longleftrightarrow>
     (\<forall>n. - 1 \<le> length_pv (stack_pv ops n) \<and> length_pv (stack_pv ops n) \<le> int G)"

definition length_within :: "int \<Rightarrow> principle_variation_t \<Rightarrow> bool" where
  "length_within K l \<longleftrightarrow> - 1 \<le> length_pv l \<and> length_pv l \<le> K"

definition pv_within :: "int \<Rightarrow> pv_arg \<Rightarrow> pv_arg \<Rightarrow> bool" where
  "pv_within K p p' =
     (case p of
        Tree_pv \<Rightarrow> p' = Tree_pv
      | Caller_lpv l \<Rightarrow>
          (case p' of
             Tree_pv \<Rightarrow> False
           | Caller_lpv l' \<Rightarrow> length_within K l \<longrightarrow> length_within K l'))"

text \<open>All entries of the killer table lie in a set of moves.\<close>

definition killers_in :: "move_t set \<Rightarrow> 'x search_tree_t \<Rightarrow> bool" where
  "killers_in G t \<longleftrightarrow> (\<forall>p k. killer_moves t p k \<in> G)"

text \<open>The tree after the entry of a search: the counters and the reading of the clock.\<close>

definition qs_entered :: "'x search_tree_t \<Rightarrow> 'x search_tree_t" where
  "qs_entered t =
     t\<lparr>raw_nodes := raw_nodes t + 1, quiescence_nodes := quiescence_nodes t + 1,
       time_calls := Suc (time_calls t)\<rparr>"

definition ab_entered :: "'x search_tree_t \<Rightarrow> 'x search_tree_t" where
  "ab_entered t =
     t\<lparr>raw_nodes := raw_nodes t + 1, alpha_beta_nodes := alpha_beta_nodes t + 1,
       time_calls := Suc (time_calls t)\<rparr>"

text \<open>What the part of \<^verbatim>\<open>initZobrist\<close> before the castle keys keeps.\<close>

definition keeps :: "zobrist_t \<Rightarrow> zobrist_t \<Rightarrow> bool" where
  "keeps z z' \<longleftrightarrow> ZobristCastleKeys z' = ZobristCastleKeys z \<and> (seed z \<noteq> 0 \<longrightarrow> seed z' \<noteq> 0)"

text \<open>
  The four castling rights are single bits of a mask below 16 (in Ethereal 1, 2, 4 and 8,
  in the order of the record); \<open>rights\<close> is the set of the four. \<open>cleared c n z\<close>: the
  castle table is zero below \<open>n\<close> and outside the rights.
\<close>

definition single_bit_rights :: "zobrist_consts \<Rightarrow> bool" where
  "single_bit_rights c \<longleftrightarrow>
     WHITE_KING_RIGHTS c \<in> {1, 2, 4, 8} \<and> WHITE_QUEEN_RIGHTS c \<in> {1, 2, 4, 8}
     \<and> BLACK_KING_RIGHTS c \<in> {1, 2, 4, 8} \<and> BLACK_QUEEN_RIGHTS c \<in> {1, 2, 4, 8}"

definition rights :: "zobrist_consts \<Rightarrow> nat set" where
  "rights c = {WHITE_KING_RIGHTS c, WHITE_QUEEN_RIGHTS c, BLACK_KING_RIGHTS c, BLACK_QUEEN_RIGHTS c}"

definition cleared :: "zobrist_consts \<Rightarrow> nat \<Rightarrow> zobrist_t \<Rightarrow> bool" where
  "cleared c n z \<longleftrightarrow>
     (\<forall>x. x < n \<or> x \<notin> rights c \<longrightarrow> ZobristCastleKeys z x = 0)"

text \<open>
  A game small enough to run: the side with \<^verbatim>\<open>turn = 0\<close> has the quiet moves 10 and 20 and,
  while the other side has two pawns or more, the captures 1 and 2, which take one and
  two pawns; the other side has no move. A move starts from the square of its own number,
  which must hold a piece. Only pawns are counted, so that \<^verbatim>\<open>evaluate_board\<close> is a hundred
  times the difference of the pawn counts. The clock advances by one second at each
  reading. A variation holds 64 moves, and the local \<^verbatim>\<open>lpv\<close> of a call starts with the
  length \<open>-7\<close>, which no copy admits: a run of this game that has a result has not used
  a length that no call had written. In \<open>toy_zeroed\<close> the locals start with the length 0.
\<close>

definition toy_eval :: eval_consts where
  "toy_eval =
     \<lparr>PIECE_TYPE = (\<lambda>p. p), QueenFlag = 4, RookFlag = 3, BishopFlag = 2, KnightFlag = 1,
      QueenValue = 900, RookValue = 500, BishopValue = 330, KnightValue = 320, PawnValue = 100,
      QUEEN_POSITION_VALUE = (\<lambda>_. 0), ROOK_POSITION_VALUE = (\<lambda>_. 0),
      BISHOP_POSITION_VALUE = (\<lambda>_. 0), KNIGHT_POSITION_VALUE = (\<lambda>_. 0),
      WHITE_PAWN_POSITION_VALUE = (\<lambda>_. 0), BLACK_PAWN_POSITION_VALUE = (\<lambda>_. 0),
      ColourWhite = 0, ColourBlack = 1\<rparr>"

definition toy :: "unit collaborators" where
  "toy =
     \<lparr>gen_all_moves =
        (\<lambda>b. if turn b = 0 then filter (\<lambda>m. squares b m \<noteq> 0) [10, 20] else []),
      gen_all_captures =
        (\<lambda>b. if turn b = 0 \<and> 2 \<le> pawn_counts b 1
             then filter (\<lambda>m. squares b m \<noteq> 0) [1, 2] else []),
      apply_move =
        (\<lambda>b m. b\<lparr>turn := 1 - turn b,
                  pawn_counts := (pawn_counts b)(1 - turn b := pawn_counts b (1 - turn b) - m mod 10)\<rparr>),
      revert_move =
        (\<lambda>b m. b\<lparr>turn := 1 - turn b,
                  pawn_counts := (pawn_counts b)(turn b := pawn_counts b (turn b) + m mod 10)\<rparr>),
      is_not_in_check = (\<lambda>b c. True),
      MOVE_GET_CAPTURE = (\<lambda>m. m mod 10),
      MOVE_GET_FROM = (\<lambda>m. m),
      IS_EMPTY = (\<lambda>p. p = 0),
      CheckMate = 32000,
      MaxDepth = 64,
      LineSize = 64,
      evaluation = toy_eval,
      time_now = (\<lambda>n. int n),
      stack_pv = (\<lambda>n. \<lparr>line = (\<lambda>_. 0), length_pv = - 7\<rparr>)\<rparr>"

definition toy_zeroed :: "unit collaborators" where
  "toy_zeroed = toy\<lparr>stack_pv := (\<lambda>n. \<lparr>line = (\<lambda>_. 0), length_pv = 0\<rparr>)\<rparr>"

definition toy_measure :: "board_t \<Rightarrow> nat" where
  "toy_measure b = nat (pawn_counts b 0) + nat (pawn_counts b 1)"

definition toy_board :: board_t where
  "toy_board =
     \<lparr>turn = 0, squares = (\<lambda>_. 1), piece_locations = (\<lambda>_. [0, - 1]),
      pawn_locations = (\<lambda>_. [- 1]), pawn_counts = (\<lambda>_. 2)\<rparr>"

definition toy_tree :: "unit search_tree_t" where
  "toy_tree =
     \<lparr>ply = 0, raw_nodes = 0, alpha_beta_nodes = 0, quiescence_nodes = 0, board = toy_board,
      principle_variation = \<lparr>line = (\<lambda>_. 0), length_pv = 0\<rparr>,
      killer_moves = (\<lambda>_ _. 0), depth_one_values = (\<lambda>_. 0), time_calls = 0, applied = []\<rparr>"

definition toy_globals :: globals where
  "toy_globals = \<lparr>StartTime = 0, EndTime = 10, EvaluatingPlayer = 0\<rparr>"

text \<open>
  Two trees of that game: one with a committed principal variation, entered when the
  clock is past the deadline of \<open>toy_globals\<close>; one at the root of a later iteration, with
  the values and the principal variation of the last one.
\<close>

definition late_tree :: "unit search_tree_t" where
  "late_tree =
     toy_tree\<lparr>principle_variation := \<lparr>line = (\<lambda>_. 0)(0 := 10), length_pv = 1\<rparr>,
              time_calls := 11\<rparr>"

definition root_tree :: "unit search_tree_t" where
  "root_tree =
     toy_tree\<lparr>depth_one_values := (\<lambda>_. 0)(0 := 30, 1 := 25),
              principle_variation := \<lparr>line = (\<lambda>_. 0)(0 := 20), length_pv = 1\<rparr>\<rparr>"

section \<open>Properties of the Zobrist keys\<close>

subsection \<open>The generator never returns zero from a nonzero seed\<close>

lemma xor_drop_bit_zero:
  fixes x :: "64 word"
  assumes "0 < n" and "x XOR drop_bit n x = 0"
  shows "x = 0"
proof -
  have "x = (x XOR drop_bit n x) XOR drop_bit n x" by (simp add: xor.assoc)
  with assms(2) have e: "x = drop_bit n x" by simp
  have "unat x = unat (drop_bit n x)" using e by simp
  also have "\<dots> = unat x div 2 ^ n" by (simp only: unat_drop_bit_eq drop_bit_nat_def)
  finally have u: "unat x = unat x div 2 ^ n" .
  have "unat x = 0"
  proof (rule ccontr)
    assume "unat x \<noteq> 0"
    moreover have "(1::nat) < 2 ^ n" using assms(1) one_less_power [of "2::nat" n] by simp
    ultimately have "unat x div 2 ^ n < unat x" by (intro div_less_dividend) auto
    with u show False by simp
  qed
  then show ?thesis by (simp add: unat_eq_0)
qed

lemma xor_push_bit_zero:
  fixes x :: "64 word"
  assumes "0 < n" and "x XOR push_bit n x = 0"
  shows "x = 0"
proof -
  have "x = (x XOR push_bit n x) XOR push_bit n x" by (simp add: xor.assoc)
  with assms(2) have e: "x = push_bit n x" by simp
  have "\<not> bit x k" for k
  proof (induction k rule: less_induct)
    case (less k)
    show ?case
    proof
      assume "bit x k"
      then have "bit (push_bit n x) k" using e by simp
      then have "n \<le> k" and "bit x (k - n)" by (simp_all add: bit_push_bit_iff)
      moreover have "k - n < k" using \<open>n \<le> k\<close> assms(1) by simp
      ultimately show False using less.IH by blast
    qed
  qed
  then show ?thesis by (simp add: bit_eq_iff)
qed

lemma mult_odd_const_zero:
  fixes s :: "64 word"
  assumes "s * 2685821657736338717 = 0"
  shows "s = 0"
proof -
  have inv: "(2685821657736338717 * 6415128727920758069 :: 64 word) = 1"
    by simp
  have "s = s * (2685821657736338717 * 6415128727920758069)"
    by (simp only: inv mult_1_right)
  also have "\<dots> = s * 2685821657736338717 * 6415128727920758069"
    by (simp only: mult.assoc)
  finally show ?thesis using assms by simp
qed

lemma rand64_nonzero:
  assumes "s \<noteq> 0"
  shows "fst (rand64 s) \<noteq> 0" and "snd (rand64 s) \<noteq> 0"
proof -
  define s1 where "s1 = s XOR drop_bit 12 s"
  define s2 where "s2 = s1 XOR push_bit 25 s1"
  define s3 where "s3 = s2 XOR drop_bit 27 s2"
  have "s1 \<noteq> 0" using assms xor_drop_bit_zero [of 12 s] by (auto simp: s1_def)
  then have "s2 \<noteq> 0" using xor_push_bit_zero [of 25 s1] by (auto simp: s2_def)
  then have s3: "s3 \<noteq> 0" using xor_drop_bit_zero [of 27 s2] by (auto simp: s3_def)
  have r: "rand64 s = (s3 * 2685821657736338717, s3)"
    by (simp add: rand64_def Let_def s1_def s2_def s3_def)
  show "snd (rand64 s) \<noteq> 0" using s3 r by simp
  show "fst (rand64 s) \<noteq> 0" using s3 r mult_odd_const_zero [of s3] by auto
qed

lemma draw_nonzero:
  "seed z \<noteq> 0 \<Longrightarrow> fst (draw z) \<noteq> 0 \<and> seed (snd (draw z)) \<noteq> 0"
  by (simp add: draw_def rand64_nonzero)

lemma draw_castle [simp]: "ZobristCastleKeys (snd (draw z)) = ZobristCastleKeys z"
  by (simp add: draw_def)

lemma set_key_frame [simp]:
  "ZobristCastleKeys (set_key p sq k z) = ZobristCastleKeys z"
  "seed (set_key p sq k z) = seed z"
  by (simp_all add: set_key_def)

lemma set_pawn_king_key_frame [simp]:
  "ZobristCastleKeys (set_pawn_king_key p sq k z) = ZobristCastleKeys z"
  "seed (set_pawn_king_key p sq k z) = seed z"
  by (simp_all add: set_pawn_king_key_def)

lemma set_castle_key_simps [simp]:
  "ZobristCastleKeys (set_castle_key cr k z) = (ZobristCastleKeys z)(cr := k)"
  "seed (set_castle_key cr k z) = seed z"
  by (simp_all add: set_castle_key_def)

lemma keeps_refl: "keeps z z" by (simp add: keeps_def)
lemma keeps_trans: "keeps a b \<Longrightarrow> keeps b c \<Longrightarrow> keeps a c" by (simp add: keeps_def)

lemma keeps_fold:
  assumes "\<And>x z. keeps z (f x z)"
  shows "keeps z (fold f xs z)"
proof (induction xs arbitrary: z)
  case Nil
  show ?case by (simp add: keeps_refl)
next
  case (Cons x xs)
  show ?case using keeps_trans [OF assms [of z x] Cons.IH [of "f x z"]] by simp
qed

lemma keeps_init_piece_square: "keeps z (init_piece_square c pt sq z)"
  using draw_nonzero [of z] draw_nonzero [of "set_key (makePiece c pt (WHITE c)) sq (fst (draw z)) (snd (draw z))"]
  by (simp add: keeps_def init_piece_square_def Let_def split_beta)

lemma keeps_init_piece_keys: "keeps z (init_piece_keys c z)"
  unfolding init_piece_keys_def
  by (intro keeps_fold keeps_init_piece_square)

lemma keeps_init_pawn_king_keys: "keeps z (init_pawn_king_keys c z)"
  unfolding init_pawn_king_keys_def
  by (intro keeps_fold) (simp add: keeps_def init_pawn_king_square_def Let_def)

lemma keeps_init_enpass_keys: "keeps z (init_enpass_keys c z)"
  unfolding init_enpass_keys_def
proof (intro keeps_fold)
  fix x z show "keeps z (init_enpass_file x z)"
    using draw_nonzero [of z] by (simp add: keeps_def init_enpass_file_def split_beta)
qed

lemma keeps_before_castle:
  "keeps z (init_enpass_keys c (init_pawn_king_keys c (init_piece_keys c z)))"
  by (blast intro: keeps_trans keeps_init_piece_keys keeps_init_pawn_king_keys keeps_init_enpass_keys)

lemma below_16:
  "n < 16 \<Longrightarrow> n \<in> {0, 1, 2, 3, 4, 5, 6, 7, 8, 9, 10, 11, 12, 13, 14, 15 :: nat}"
  by simp arith

lemma bit_below_table:
  "\<forall>n\<in>{0, 1, 2, 3, 4, 5, 6, 7, 8, 9, 10, 11, 12, 13, 14, 15 :: nat}.
     \<forall>r\<in>{1, 2, 4, 8::nat}. n AND r \<noteq> 0 \<longrightarrow> r \<le> n"
  by simp

lemma bit_below: "n < 16 \<Longrightarrow> r \<in> {1, 2, 4, 8::nat} \<Longrightarrow> n AND r \<noteq> 0 \<Longrightarrow> r \<le> n"
  using bit_below_table below_16 by blast

lemma bit_same_table:
  "\<forall>n\<in>{1, 2, 4, 8::nat}. \<forall>r\<in>{1, 2, 4, 8::nat}. n AND r \<noteq> 0 \<longrightarrow> r = n"
  by simp

lemma bit_same: "n \<in> {1, 2, 4, 8::nat} \<Longrightarrow> r \<in> {1, 2, 4, 8::nat} \<Longrightarrow> n AND r \<noteq> 0 \<Longrightarrow> r = n"
  using bit_same_table by blast

lemma combine_right_step:
  assumes n: "n < 16" and r: "r \<in> rights c" and sb: "rights c \<subseteq> {1, 2, 4, 8}"
    and cl: "cleared c n z"
  shows "cleared c n (combine_right n r z)"
    and "ZobristCastleKeys z n = 0 \<or> r = n \<Longrightarrow> ZobristCastleKeys (combine_right n r z) n = 0"
proof -
  have r4: "r \<in> {1, 2, 4, 8}" using r sb by blast
  have low: "ZobristCastleKeys z r = 0" if "n AND r \<noteq> 0" "r \<noteq> n"
  proof -
    have "r \<le> n" using bit_below [OF n r4 that(1)] .
    with that(2) have "r < n" by simp
    with cl show ?thesis by (simp add: cleared_def)
  qed
  show "cleared c n (combine_right n r z)"
    unfolding cleared_def
  proof (intro allI impI)
    fix x assume x: "x < n \<or> x \<notin> rights c"
    show "ZobristCastleKeys (combine_right n r z) x = 0"
    proof (cases "x = n \<and> n AND r \<noteq> 0")
      case False
      then have "ZobristCastleKeys (combine_right n r z) x = ZobristCastleKeys z x"
        by (auto simp: combine_right_def)
      with cl x show ?thesis by (auto simp: cleared_def)
    next
      case True
      with x have nr: "n \<notin> rights c" by simp
      with r have "r \<noteq> n" by blast
      with True low have "ZobristCastleKeys z r = 0" by simp
      moreover have "ZobristCastleKeys z n = 0" using cl nr by (simp add: cleared_def)
      ultimately show ?thesis using True by (simp add: combine_right_def)
    qed
  qed
  show "ZobristCastleKeys (combine_right n r z) n = 0" if "ZobristCastleKeys z n = 0 \<or> r = n"
  proof (cases "n AND r \<noteq> 0")
    case False
    with that r4 show ?thesis by (auto simp: combine_right_def)
  next
    case hit: True
    show ?thesis
    proof (cases "r = n")
      case True
      with hit show ?thesis by (simp add: combine_right_def)
    next
      case False
      with that hit low show ?thesis by (simp add: combine_right_def)
    qed
  qed
qed

lemma combine_castle_step:
  assumes n: "n < 16" and sb: "single_bit_rights c" and cl: "cleared c n z"
  shows "cleared c (Suc n) (combine_castle c n z)"
proof -
  have sub: "rights c \<subseteq> {1, 2, 4, 8}"
    using sb by (auto simp: single_bit_rights_def rights_def)
  define z1 where "z1 = combine_right n (WHITE_KING_RIGHTS c) z"
  define z2 where "z2 = combine_right n (WHITE_QUEEN_RIGHTS c) z1"
  define z3 where "z3 = combine_right n (BLACK_KING_RIGHTS c) z2"
  define z4 where "z4 = combine_right n (BLACK_QUEEN_RIGHTS c) z3"
  have m: "WHITE_KING_RIGHTS c \<in> rights c" "WHITE_QUEEN_RIGHTS c \<in> rights c"
    "BLACK_KING_RIGHTS c \<in> rights c" "BLACK_QUEEN_RIGHTS c \<in> rights c"
    by (simp_all add: rights_def)
  note s1 = combine_right_step [OF n m(1) sub cl, folded z1_def]
  note s2 = combine_right_step [OF n m(2) sub s1(1), folded z2_def]
  note s3 = combine_right_step [OF n m(3) sub s2(1), folded z3_def]
  note s4 = combine_right_step [OF n m(4) sub s3(1), folded z4_def]
  have "ZobristCastleKeys z4 n = 0"
  proof (cases "n \<in> rights c")
    case False
    with cl have "ZobristCastleKeys z n = 0" by (simp add: cleared_def)
    then show ?thesis using s1(2) s2(2) s3(2) s4(2) by blast
  next
    case True
    then consider "WHITE_KING_RIGHTS c = n" | "WHITE_QUEEN_RIGHTS c = n"
      | "BLACK_KING_RIGHTS c = n" | "BLACK_QUEEN_RIGHTS c = n"
      by (auto simp: rights_def)
    then show ?thesis using s1(2) s2(2) s3(2) s4(2) by cases blast+
  qed
  moreover have "combine_castle c n z = z4"
    by (simp add: combine_castle_def z1_def z2_def z3_def z4_def)
  ultimately show ?thesis
    using s4(1) by (auto simp: cleared_def less_Suc_eq)
qed

lemma combine_prefix:
  assumes sb: "single_bit_rights c" and cl: "cleared c 0 z"
  shows "m \<le> 16 \<Longrightarrow> cleared c m (fold (combine_castle c) [0..<m] z)"
proof (induction m)
  case 0
  with cl show ?case by simp
next
  case (Suc m)
  then have "cleared c m (fold (combine_castle c) [0..<m] z)" and "m < 16" by simp_all
  from combine_castle_step [OF this(2) sb this(1)] show ?case by simp
qed

lemma combine_all_zero_general:
  assumes sb: "single_bit_rights c" and cl: "cleared c 0 z"
  shows "ZobristCastleKeys (combine_castle_keys c z) x = 0"
proof -
  have sub: "rights c \<subseteq> {1, 2, 4, 8}"
    using sb by (auto simp: single_bit_rights_def rights_def)
  have "cleared c 16 (combine_castle_keys c z)"
    unfolding combine_castle_keys_def using combine_prefix [OF sb cl, of 16] by simp
  moreover have "x < 16 \<or> x \<notin> rights c" using sub by force
  ultimately show ?thesis by (auto simp: cleared_def)
qed

lemma castle_rights_values_general:
  assumes z: "ZobristCastleKeys z = (\<lambda>_. 0)" "seed z \<noteq> 0"
  shows "cleared c 0 (init_castle_rights c z)
       \<and> (\<forall>r\<in>rights c. ZobristCastleKeys (init_castle_rights c z) r \<noteq> 0)"
proof -
  define z1 where "z1 = snd (draw z)"
  define z2 where "z2 = set_castle_key (WHITE_KING_RIGHTS c) (fst (draw z)) z1"
  define z3 where "z3 = snd (draw z2)"
  define z4 where "z4 = set_castle_key (WHITE_QUEEN_RIGHTS c) (fst (draw z2)) z3"
  define z5 where "z5 = snd (draw z4)"
  define z6 where "z6 = set_castle_key (BLACK_KING_RIGHTS c) (fst (draw z4)) z5"
  define z7 where "z7 = snd (draw z6)"
  have n1: "fst (draw z) \<noteq> 0" "seed z2 \<noteq> 0"
    using draw_nonzero [of z] z(2) by (simp_all add: z2_def z1_def)
  have n2: "fst (draw z2) \<noteq> 0" "seed z4 \<noteq> 0"
    using draw_nonzero [of z2] n1(2) by (simp_all add: z4_def z3_def)
  have n3: "fst (draw z4) \<noteq> 0" "seed z6 \<noteq> 0"
    using draw_nonzero [of z4] n2(2) by (simp_all add: z6_def z5_def)
  have n4: "fst (draw z6) \<noteq> 0"
    using draw_nonzero [of z6] n3(2) by simp
  have k: "ZobristCastleKeys (init_castle_rights c z) =
          (\<lambda>_. 0)(WHITE_KING_RIGHTS c := fst (draw z), WHITE_QUEEN_RIGHTS c := fst (draw z2),
                  BLACK_KING_RIGHTS c := fst (draw z4), BLACK_QUEEN_RIGHTS c := fst (draw z6))"
    by (simp add: init_castle_rights_def split_beta Let_def z(1) z1_def z2_def z3_def z4_def
        z5_def z6_def z7_def)
  show ?thesis
    using n1(1) n2(1) n3(1) n4 by (auto simp: k cleared_def rights_def)
qed

subsection \<open>The castle table after initialisation\<close>

text \<open>
  Claim C5 says that after \<^verbatim>\<open>initZobrist\<close> the entry of a single-right mask is that
  right's freshly drawn key. The code does otherwise: the combining loop runs over all
  sixteen masks, the four single-right masks included, and for \<open>cr = R\<close> the statement
  \<^verbatim>\<open>ZobristCastleKeys[cr] ^= ZobristCastleKeys[R]\<close> xors the drawn key with itself. When
  the rights are single bits of the mask, the table was zero before the call (static
  storage) and the seed is not zero, every entry of the table is zero after
  \<^verbatim>\<open>initZobrist\<close>, although each of the four keys drawn at lines 68 to 71 was nonzero.
\<close>

theorem initZobrist_castle_keys_zero:
  assumes "single_bit_rights c" and "ZobristCastleKeys z = (\<lambda>_. 0)" and "seed z \<noteq> 0"
  shows "ZobristCastleKeys (initZobrist c z) cr = 0 \<and>
         ZobristCastleKeys (castle_rights_drawn c z) (WHITE_KING_RIGHTS c) \<noteq> 0 \<and>
         ZobristCastleKeys (castle_rights_drawn c z) (WHITE_QUEEN_RIGHTS c) \<noteq> 0 \<and>
         ZobristCastleKeys (castle_rights_drawn c z) (BLACK_KING_RIGHTS c) \<noteq> 0 \<and>
         ZobristCastleKeys (castle_rights_drawn c z) (BLACK_QUEEN_RIGHTS c) \<noteq> 0"
proof -
  define z0 where "z0 = init_enpass_keys c (init_pawn_king_keys c (init_piece_keys c z))"
  have "keeps z z0" unfolding z0_def by (rule keeps_before_castle)
  then have z0: "ZobristCastleKeys z0 = (\<lambda>_. 0)" "seed z0 \<noteq> 0"
    using assms(2,3) by (simp_all add: keeps_def)
  have drawn: "castle_rights_drawn c z = init_castle_rights c z0"
    by (simp add: castle_rights_drawn_def z0_def)
  from castle_rights_values_general [OF z0, of c]
  have cl: "cleared c 0 (init_castle_rights c z0)"
    and nz: "\<forall>r\<in>rights c. ZobristCastleKeys (init_castle_rights c z0) r \<noteq> 0"
    by simp_all
  have "ZobristCastleKeys (combine_castle_keys c (init_castle_rights c z0)) cr = 0"
    by (rule combine_all_zero_general [OF assms(1) cl])
  then have "ZobristCastleKeys (initZobrist c z) cr = 0"
    by (simp add: initZobrist_def drawn init_turn_key_def draw_def split_beta)
  then show ?thesis using nz by (simp add: drawn rights_def)
qed

theorem initZobrist_castle_keys_zero_witness:
  "single_bit_rights ethereal_zobrist_consts
   \<and> ZobristCastleKeys zobrist_start = (\<lambda>_. 0) \<and> seed zobrist_start \<noteq> 0
   \<and> ZobristCastleKeys (initZobrist ethereal_zobrist_consts zobrist_start) 1 = 0
   \<and> ZobristCastleKeys (castle_rights_drawn ethereal_zobrist_consts zobrist_start) 1 \<noteq> 0"
proof -
  have c: "single_bit_rights ethereal_zobrist_consts"
    by (simp add: single_bit_rights_def ethereal_zobrist_consts_def)
  have t: "ZobristCastleKeys zobrist_start = (\<lambda>_. 0)" and s: "seed zobrist_start \<noteq> 0"
    by (simp_all add: zobrist_start_def)
  from initZobrist_castle_keys_zero [OF c t s, of 1] c t s show ?thesis
    by (simp add: ethereal_zobrist_consts_def)
qed

section \<open>Properties of the search\<close>

subsection \<open>Frame of the board\<close>

lemma board_do_apply [simp]: "board (do_apply ops t m) = apply_move ops (board t) m"
  by (simp add: do_apply_def)

lemma board_do_revert [simp]: "board (do_revert ops t m) = revert_move ops (board t) m"
  by (simp add: do_revert_def)

lemma board_update_killer [simp]: "board (update_killer_heuristic t m) = board t"
  by (simp add: update_killer_heuristic_def Let_def)

lemma board_time_expired [simp]: "board (snd (time_expired ops g t)) = board t"
  by (simp add: time_expired_def)

lemma board_write_pv [simp]: "board (snd (write_pv f p t)) = board t"
  by (simp add: write_pv_def split: pv_arg.splits)

lemma write_pv_board: "write_pv f p t = (p', t') \<Longrightarrow> board t' = board t"
  by (auto simp: write_pv_def split: pv_arg.splits)

lemma board_order_moves: "order_moves ops t ms = Some (ms', t') \<Longrightarrow> board t' = board t"
  by (auto simp: order_moves_def Let_def split: if_splits option.splits prod.splits)





lemma alpha_beta_loop_illegal:
  "\<not> is_not_in_check ops (apply_move ops (board (a_tree v)) m)
        (c_not (turn (apply_move ops (board (a_tree v)) m))) \<Longrightarrow>
   alpha_beta_loop rec ops depth beta fpv (m # ms) i v
     = alpha_beta_loop rec ops depth beta fpv ms (Suc i)
         (v\<lparr>a_tree := do_revert ops (do_apply ops (a_tree v) m) m\<rparr>)"
  by (simp add: Let_def)

lemma alpha_beta_loop_legal:
  "is_not_in_check ops (apply_move ops (board (a_tree v)) m)
        (c_not (turn (apply_move ops (board (a_tree v)) m))) \<Longrightarrow>
   search_child rec depth beta fpv i (a_alpha v) (a_lpv v) (do_apply ops (a_tree v) m)
     = Some (val, lpv, t2) \<Longrightarrow>
   child_searched ops m i val lpv t2 v = Some v1 \<Longrightarrow>
   alpha_beta_loop rec ops depth beta fpv (m # ms) i v
     = (if a_alpha v1 > beta
        then Some (v1\<lparr>a_tree := do_revert ops (update_killer_heuristic (a_tree v1) m) m\<rparr>)
        else alpha_beta_loop rec ops depth beta fpv ms (Suc i)
               (v1\<lparr>a_tree := do_revert ops (a_tree v1) m\<rparr>))"
  by (simp add: Let_def)




subsection \<open>The sort permutes the moves\<close>

declare order_inner.simps [simp del] order_outer.simps [simp del]

lemma order_inner_mset:
  "i < sz \<Longrightarrow> sz \<le> length (fst mv) \<Longrightarrow>
   mset (fst (order_inner i j sz mv)) = mset (fst mv)"
proof (induction i j sz mv rule: order_inner.induct)
  case (1 i j sz mv)
  show ?case
  proof (cases "j < sz")
    case False
    then show ?thesis by (simp add: order_inner.simps [of i j sz mv])
  next
    case True
    let ?mv = "(if snd mv ! j > snd mv ! i
              then ((fst mv)[j := fst mv ! i, i := fst mv ! j],
                    (snd mv)[j := snd mv ! i, i := snd mv ! j])
              else mv)"
    have m: "mset (fst ?mv) = mset (fst mv)"
      using True "1.prems" by (simp add: mset_swap)
    have l: "sz \<le> length (fst ?mv)" using "1.prems" by simp
    have "mset (fst (order_inner i (Suc j) sz ?mv)) = mset (fst ?mv)"
      using "1.IH" [OF True "1.prems"(1) l] .
    with m True show ?thesis by (simp add: order_inner.simps [of i j sz mv])
  qed
qed

lemma order_outer_mset:
  "sz \<le> length (fst mv) \<Longrightarrow> mset (fst (order_outer i sz mv)) = mset (fst mv)"
proof (induction i sz mv rule: order_outer.induct)
  case (1 i sz mv)
  show ?case
  proof (cases "i < sz")
    case False
    then show ?thesis by (simp add: order_outer.simps [of i sz mv])
  next
    case True
    have m: "mset (fst (order_inner i (Suc i) sz mv)) = mset (fst mv)"
      using True "1.prems" by (rule order_inner_mset)
    then have "length (fst (order_inner i (Suc i) sz mv)) = length (fst mv)"
      by (rule mset_eq_length)
    with "1.prems" have l: "sz \<le> length (fst (order_inner i (Suc i) sz mv))" by simp
    from "1.IH" [OF True l] m True show ?thesis
      by (simp add: order_outer.simps [of i sz mv])
  qed
qed

lemma order_by_value_mset:
  "sz \<le> length moves \<Longrightarrow> mset (fst (order_by_value moves vals sz)) = mset moves"
  by (simp add: order_by_value_def order_outer_mset)

lemma those_map_Some:
  "(\<forall>x\<in>set xs. f x \<noteq> None) \<Longrightarrow> \<exists>ys. those (map f xs) = Some ys"
  by (induction xs) auto

lemma basic_heuristic_mset:
  "basic_heuristic ops t moves = Some ms \<Longrightarrow> mset ms = mset moves"
  by (auto simp: basic_heuristic_def order_by_value_mset split: option.splits)

lemma basic_heuristic_total:
  assumes "\<forall>m\<in>set moves. squares (board t) (MOVE_GET_FROM ops m) \<noteq> 0"
  shows "\<exists>ms. basic_heuristic ops t moves = Some ms"
proof -
  have "\<forall>m\<in>set moves. heuristic_value ops t m \<noteq> None"
    using assms by (simp add: heuristic_value_def Let_def)
  then obtain vs where "those (map (heuristic_value ops t) moves) = Some vs"
    using those_map_Some by blast
  then show ?thesis by (simp add: basic_heuristic_def)
qed

subsection \<open>The cases of \<^verbatim>\<open>quiescence_search\<close>, and that it returns\<close>

lemma board_qs_entered [simp]: "board (qs_entered t) = board t"
  by (simp add: qs_entered_def)

lemma quiescence_search_expired:
  "EndTime g < time_now ops (time_calls t) \<Longrightarrow>
   quiescence_search ops g (Suc n) alpha beta t
     = Some (abort_score ops g (qs_entered t), qs_entered t)"
  by (simp add: time_expired_def qs_entered_def Let_def)

lemma quiescence_search_stand_pat:
  "\<not> EndTime g < time_now ops (time_calls t) \<Longrightarrow>
   max alpha (evaluate_board (evaluation ops) (board t)) > beta \<Longrightarrow>
   quiescence_search ops g (Suc n) alpha beta t
     = Some (evaluate_board (evaluation ops) (board t), qs_entered t)"
  by (auto simp: time_expired_def qs_entered_def max_def Let_def cong: option.case_cong)

lemma quiescence_search_captures:
  "\<not> EndTime g < time_now ops (time_calls t) \<Longrightarrow>
   \<not> max alpha (evaluate_board (evaluation ops) (board t)) > beta \<Longrightarrow>
   quiescence_search ops g (Suc n) alpha beta t
     = (case basic_heuristic ops ((qs_entered t)\<lparr>ply := ply t + 1\<rparr>) (gen_all_captures ops (board t)) of
          None \<Rightarrow> None
        | Some moves \<Rightarrow>
            (case quiescence_loop (quiescence_search ops g n) ops beta moves (length moves)
                    \<lparr>q_tree = (qs_entered t)\<lparr>ply := ply t + 1\<rparr>,
                     q_alpha = max alpha (evaluate_board (evaluation ops) (board t)),
                     q_best = evaluate_board (evaluation ops) (board t)\<rparr> of
               None \<Rightarrow> None
             | Some v \<Rightarrow> Some (q_best v, (q_tree v)\<lparr>ply := ply (q_tree v) - 1\<rparr>)))"
  by (auto simp: time_expired_def qs_entered_def max_def Let_def cong: option.case_cong)

lemma quiescence_loop_illegal:
  "\<not> is_not_in_check ops (apply_move ops (board (q_tree v)) (moves ! i))
        (c_not (turn (apply_move ops (board (q_tree v)) (moves ! i)))) \<Longrightarrow>
   quiescence_loop rec ops beta moves (Suc i) v
     = quiescence_loop rec ops beta moves i
         (v\<lparr>q_tree := do_revert ops (do_apply ops (q_tree v) (moves ! i)) (moves ! i)\<rparr>)"
  by (simp add: Let_def)

lemma quiescence_loop_legal:
  "is_not_in_check ops (apply_move ops (board (q_tree v)) (moves ! i))
        (c_not (turn (apply_move ops (board (q_tree v)) (moves ! i)))) \<Longrightarrow>
   rec (- beta) (- q_alpha v) (do_apply ops (q_tree v) (moves ! i)) = Some (r, t2) \<Longrightarrow>
   quiescence_loop rec ops beta moves (Suc i) v
     = (if max (max (- r) (q_best v)) (q_alpha v) > beta
        then Some \<lparr>q_tree = do_revert ops (update_killer_heuristic t2 (moves ! i)) (moves ! i),
                   q_alpha = max (max (- r) (q_best v)) (q_alpha v),
                   q_best = max (- r) (q_best v)\<rparr>
        else quiescence_loop rec ops beta moves i
               \<lparr>q_tree = do_revert ops t2 (moves ! i),
                q_alpha = max (max (- r) (q_best v)) (q_alpha v),
                q_best = max (- r) (q_best v)\<rparr>)"
  by (auto simp: Let_def max_def)

lemma quiescence_loop_total:
  assumes inv: "exact_inverses ops"
    and shrink: "captures_shrink ops \<mu>"
    and r: "\<And>a b t. \<mu> (board t) < n \<Longrightarrow> \<exists>r t'. rec a b t = Some (r, t') \<and> board t' = board t"
    and fuel: "\<mu> (board (q_tree v)) \<le> n"
  shows "\<forall>j<i. moves ! j \<in> set (gen_all_captures ops (board (q_tree v))) \<Longrightarrow>
         \<exists>v'. quiescence_loop rec ops beta moves i v = Some v'
              \<and> board (q_tree v') = board (q_tree v) \<and> q_best v \<le> q_best v'"
  using fuel
proof (induction i arbitrary: v)
  case 0
  then show ?case by simp
next
  case (Suc i)
  let ?m = "moves ! i"
  let ?b = "board (q_tree v)"
  let ?t1 = "do_apply ops (q_tree v) ?m"
  let ?legal = "is_not_in_check ops (apply_move ops ?b ?m) (c_not (turn (apply_move ops ?b ?m)))"
  have cap: "?m \<in> set (gen_all_captures ops ?b)" using Suc.prems(1) by simp
  have undo: "revert_move ops (apply_move ops ?b ?m) ?m = ?b"
    using inv by (simp add: exact_inverses_def)
  have "\<mu> (apply_move ops ?b ?m) < \<mu> ?b"
    using shrink cap unfolding captures_shrink_def by blast
  then have small: "\<mu> (board ?t1) < n"
    using Suc.prems(2) by simp
  have rest: "\<exists>v'. quiescence_loop rec ops beta moves i w = Some v'
              \<and> board (q_tree v') = ?b \<and> q_best w \<le> q_best v'"
    if "board (q_tree w) = ?b" for w
    using Suc.IH [of w] Suc.prems that by simp
  show ?case
  proof (cases ?legal)
    case False
    from rest [of "v\<lparr>q_tree := do_revert ops ?t1 ?m\<rparr>"] show ?thesis
      by (simp only: quiescence_loop_illegal [OF False]) (simp add: undo)
  next
    case True
    from r [OF small] obtain r0 t2 where
      rr: "rec (- beta) (- q_alpha v) ?t1 = Some (r0, t2)" and b2: "board t2 = board ?t1"
      by blast
    let ?best = "max (- r0) (q_best v)"
    let ?alpha = "max ?best (q_alpha v)"
    note step = quiescence_loop_legal [where rec = rec and ops = ops and v = v and moves = moves
        and i = i and beta = beta, OF True rr]
    show ?thesis
    proof (cases "?alpha > beta")
      case cut: True
      show ?thesis by (simp only: step cut if_True) (simp add: b2 undo)
    next
      case False
      from rest [of "\<lparr>q_tree = do_revert ops t2 ?m, q_alpha = ?alpha, q_best = ?best\<rparr>"]
      obtain v' where "quiescence_loop rec ops beta moves i
           \<lparr>q_tree = do_revert ops t2 ?m, q_alpha = ?alpha, q_best = ?best\<rparr> = Some v'"
        "board (q_tree v') = ?b" "?best \<le> q_best v'"
        by (auto simp: b2 undo)
      then show ?thesis by (simp only: step False if_False) simp
    qed
  qed
qed

lemma quiescence_search_total:
  assumes inv: "exact_inverses ops"
    and shrink: "captures_shrink ops \<mu>"
    and mover: "captures_have_mover ops"
  shows "\<mu> (board t) < n \<Longrightarrow>
         \<exists>r t'. quiescence_search ops g n alpha beta t = Some (r, t') \<and> board t' = board t
               \<and> (\<not> EndTime g < time_now ops (time_calls t)
                    \<longrightarrow> evaluate_board (evaluation ops) (board t) \<le> r)"
proof (induction n arbitrary: alpha beta t)
  case 0
  then show ?case by simp
next
  case (Suc n)
  let ?best = "evaluate_board (evaluation ops) (board t)"
  let ?t3 = "(qs_entered t)\<lparr>ply := ply t + 1\<rparr>"
  let ?v = "\<lparr>q_tree = ?t3, q_alpha = max alpha ?best, q_best = ?best\<rparr>"
  show ?case
  proof (cases "EndTime g < time_now ops (time_calls t)")
    case True
    show ?thesis by (simp only: quiescence_search_expired [OF True]) (simp add: True)
  next
    case live: False
    show ?thesis
    proof (cases "max alpha ?best > beta")
      case True
      show ?thesis by (simp only: quiescence_search_stand_pat [OF live True]) simp
    next
      case False
      let ?caps = "gen_all_captures ops (board t)"
      have "\<forall>m\<in>set ?caps. squares (board ?t3) (MOVE_GET_FROM ops m) \<noteq> 0"
        using mover by (simp add: captures_have_mover_def)
      then obtain ms where ms: "basic_heuristic ops ?t3 ?caps = Some ms"
        using basic_heuristic_total by blast
      then have "mset ms = mset ?caps" by (rule basic_heuristic_mset)
      then have sm: "set ms = set ?caps" by (rule mset_eq_setD)
      have "\<exists>v'. quiescence_loop (quiescence_search ops g n) ops beta ms (length ms) ?v = Some v'
              \<and> board (q_tree v') = board (q_tree ?v) \<and> q_best ?v \<le> q_best v'"
      proof (rule quiescence_loop_total [OF inv shrink, where n = n])
        show "\<exists>r t'. quiescence_search ops g n a b s = Some (r, t') \<and> board t' = board s"
          if "\<mu> (board s) < n" for a b s
          using Suc.IH [OF that, of a b] by blast
        show "\<mu> (board (q_tree ?v)) \<le> n"
          using Suc.prems by simp
        show "\<forall>j<length ms. ms ! j \<in> set (gen_all_captures ops (board (q_tree ?v)))"
          using sm nth_mem [of _ ms] by auto
      qed
      then obtain v' where
        lp: "quiescence_loop (quiescence_search ops g n) ops beta ms (length ms) ?v = Some v'"
        and bv: "board (q_tree v') = board t" and le: "?best \<le> q_best v'"
        by auto
      show ?thesis
        by (simp only: quiescence_search_captures [OF live False] ms lp option.case) (simp add: bv le)
    qed
  qed
qed

subsection \<open>The instance meets the hypotheses\<close>

lemma toy_inverses: "exact_inverses toy"
  by (simp add: exact_inverses_def toy_def)

lemma toy_shrink: "captures_shrink toy toy_measure"
  by (auto simp: captures_shrink_def toy_def toy_measure_def)

lemma toy_mover: "captures_have_mover toy"
  by (auto simp: captures_have_mover_def toy_def)

subsection \<open>The killer table\<close>

lemma killers_do_apply [simp]: "killers_in G (do_apply ops t m) = killers_in G t"
  by (simp add: killers_in_def do_apply_def)

lemma killers_do_revert [simp]: "killers_in G (do_revert ops t m) = killers_in G t"
  by (simp add: killers_in_def do_revert_def)


lemma killers_qs_entered [simp]: "killers_in G (qs_entered t) = killers_in G t"
  by (simp add: killers_in_def qs_entered_def)

lemma killers_ply [simp]: "killers_in G (t\<lparr>ply := p\<rparr>) = killers_in G t"
  by (simp add: killers_in_def)

lemma killers_write_pv: "write_pv f p t = (p', t') \<Longrightarrow> killers_in G t' = killers_in G t"
  by (auto simp: write_pv_def killers_in_def split: pv_arg.splits)

lemma order_moves_mset:
  "order_moves ops t ms = Some (ms', t') \<Longrightarrow> mset ms' = mset ms"
  by (auto simp: order_moves_def Let_def order_by_value_mset split_beta
      split: if_splits option.splits dest!: basic_heuristic_mset)




lemma killers_time_expired [simp]: "killers_in G (snd (time_expired ops g t)) = killers_in G t"
  by (simp add: killers_in_def time_expired_def)




subsection \<open>The cases of \<^verbatim>\<open>alpha_beta_prune\<close>\<close>

lemma alpha_beta_prune_expired:
  "EndTime g < time_now ops (time_calls t) \<Longrightarrow>
   alpha_beta_prune ops g (Suc n) pv depth alpha beta t
     = Some (abort_score ops g t, write_pv (\<lambda>p. p\<lparr>length_pv := - 1\<rparr>) pv (ab_entered t))"
  by (simp add: time_expired_def ab_entered_def Let_def split_beta abort_score_def)

lemma alpha_beta_prune_leaf:
  "\<not> EndTime g < time_now ops (time_calls t) \<Longrightarrow>
   alpha_beta_prune ops g (Suc n) pv 0 alpha beta t
     = (case quiescence_search ops g n alpha beta
               (snd (write_pv (\<lambda>p. p\<lparr>length_pv := 0\<rparr>) pv (t\<lparr>time_calls := Suc (time_calls t)\<rparr>))) of
          None \<Rightarrow> None
        | Some (r, t5) \<Rightarrow>
            Some (r, fst (write_pv (\<lambda>p. p\<lparr>length_pv := 0\<rparr>) pv (t\<lparr>time_calls := Suc (time_calls t)\<rparr>)), t5))"
  by (simp add: time_expired_def Let_def split_beta)

lemma alpha_beta_prune_inner:
  "\<not> EndTime g < time_now ops (time_calls t) \<Longrightarrow> depth \<noteq> 0 \<Longrightarrow>
   alpha_beta_prune ops g (Suc n) pv depth alpha beta t
     = (case order_moves ops ((ab_entered t)\<lparr>ply := ply t + 1\<rparr>) (gen_all_moves ops (board t)) of
          None \<Rightarrow> None
        | Some (moves, t4) \<Rightarrow>
            (case alpha_beta_loop (alpha_beta_prune ops g n) ops depth beta
                    (case moves of [] \<Rightarrow> False
                     | m0 # _ \<Rightarrow> line (principle_variation t4) (ply t4 - 1) = m0)
                    moves 0
                    \<lparr>a_tree = t4, a_pv = pv, a_lpv = stack_pv ops (time_calls t), a_alpha = alpha,
                     a_best = - CheckMate ops, a_valid_size = 0\<rparr> of
               None \<Rightarrow> None
             | Some v \<Rightarrow>
                 Some (if a_valid_size v = 0
                          \<and> is_not_in_check ops (board (a_tree v)) (turn (board (a_tree v)))
                       then 0 else a_best v,
                       a_pv v, (a_tree v)\<lparr>ply := ply (a_tree v) - 1\<rparr>)))"
  by (simp add: time_expired_def ab_entered_def Let_def split_beta
      cong: option.case_cong)

lemma killers_ab_entered [simp]: "killers_in G (ab_entered t) = killers_in G t"
  by (simp add: killers_in_def ab_entered_def)

lemma killers_time_calls [simp]: "killers_in G (t\<lparr>time_calls := k\<rparr>) = killers_in G t"
  by (simp add: killers_in_def)

lemma killers_snd_write_pv [simp]: "killers_in G (snd (write_pv f p t)) = killers_in G t"
  by (simp add: write_pv_def killers_in_def split: pv_arg.splits)


lemma deepening_root_abort:
  assumes "depth < MaxDepth ops" and "EndTime g < time_now ops (time_calls t)"
    and "mono (time_now ops)"
  shows "alpha_beta_prune ops g (Suc n) Tree_pv depth alpha beta t
           = Some (abort_score ops g t, Tree_pv,
                   t\<lparr>raw_nodes := raw_nodes t + 1, alpha_beta_nodes := alpha_beta_nodes t + 1,
                     time_calls := Suc (time_calls t),
                     principle_variation := (principle_variation t)\<lparr>length_pv := - 1\<rparr>\<rparr>)
         \<and> deepening ops g (Suc n) depth t
           = Some (t\<lparr>raw_nodes := raw_nodes t + 1, alpha_beta_nodes := alpha_beta_nodes t + 1,
                     time_calls := time_calls t + 3,
                     principle_variation := (principle_variation t)\<lparr>length_pv := - 1\<rparr>\<rparr>)"
proof -
  let ?t = "t\<lparr>raw_nodes := raw_nodes t + 1, alpha_beta_nodes := alpha_beta_nodes t + 1,
                     time_calls := Suc (time_calls t),
                     principle_variation := (principle_variation t)\<lparr>length_pv := - 1\<rparr>\<rparr>"
  have ab: "alpha_beta_prune ops g (Suc n) Tree_pv depth a b t = Some (abort_score ops g t, Tree_pv, ?t)"
    for a b
    by (simp only: alpha_beta_prune_expired [OF assms(2)]) (simp add: write_pv_def ab_entered_def)
  have "time_now ops (time_calls t) \<le> time_now ops (Suc (Suc (time_calls t)))"
    using assms(3) by (simp add: mono_def)
  with assms(2) have late: "EndTime g < time_now ops (Suc (Suc (time_calls t)))" by simp
  have "deepening ops g (Suc n) depth t = Some (?t\<lparr>time_calls := time_calls t + 3\<rparr>)"
    by (subst deepening.simps) (simp add: ab assms(1) late time_expired_def del: alpha_beta_prune.simps)
  with ab show ?thesis by simp
qed

subsection \<open>The stand-pat value is a lower bound\<close>

lemma quiescence_loop_best_mono:
  "quiescence_loop rec ops beta moves i v = Some v' \<Longrightarrow> q_best v \<le> q_best v'"
proof (induction i arbitrary: v)
  case 0
  then show ?case by simp
next
  case (Suc i)
  let ?m = "moves ! i"
  let ?b = "board (q_tree v)"
  let ?t1 = "do_apply ops (q_tree v) ?m"
  let ?legal = "is_not_in_check ops (apply_move ops ?b ?m) (c_not (turn (apply_move ops ?b ?m)))"
  show ?case
  proof (cases ?legal)
    case False
    from Suc.prems have "quiescence_loop rec ops beta moves i
         (v\<lparr>q_tree := do_revert ops ?t1 ?m\<rparr>) = Some v'"
      by (simp only: quiescence_loop_illegal [OF False])
    from Suc.IH [OF this] show ?thesis by simp
  next
    case True
    with Suc.prems obtain r0 t2 where rr: "rec (- beta) (- q_alpha v) ?t1 = Some (r0, t2)"
      by (auto simp: Let_def split: option.splits)
    let ?best = "max (- r0) (q_best v)"
    let ?alpha = "max ?best (q_alpha v)"
    note step = quiescence_loop_legal [where rec = rec and ops = ops and v = v and moves = moves
        and i = i and beta = beta, OF True rr]
    show ?thesis
    proof (cases "?alpha > beta")
      case cut: True
      from Suc.prems have "v' = \<lparr>q_tree = do_revert ops (update_killer_heuristic t2 ?m) ?m,
          q_alpha = ?alpha, q_best = ?best\<rparr>"
        by (simp only: step cut if_True) simp
      then show ?thesis by simp
    next
      case False
      from Suc.prems have "quiescence_loop rec ops beta moves i
           \<lparr>q_tree = do_revert ops t2 ?m, q_alpha = ?alpha, q_best = ?best\<rparr> = Some v'"
        by (simp only: step False if_False)
      from Suc.IH [OF this] show ?thesis by simp
    qed
  qed
qed

lemma quiescence_search_lower_bound:
  assumes live: "\<not> EndTime g < time_now ops (time_calls t)"
    and res: "quiescence_search ops g n alpha beta t = Some (v, t')"
  shows "evaluate_board (evaluation ops) (board t) \<le> v"
proof (cases n)
  case 0
  with res show ?thesis by simp
next
  case (Suc k)
  let ?best = "evaluate_board (evaluation ops) (board t)"
  let ?t3 = "(qs_entered t)\<lparr>ply := ply t + 1\<rparr>"
  let ?v = "\<lparr>q_tree = ?t3, q_alpha = max alpha ?best, q_best = ?best\<rparr>"
  show ?thesis
  proof (cases "max alpha ?best > beta")
    case True
    from res show ?thesis
      unfolding Suc by (simp only: quiescence_search_stand_pat [OF live True]) simp
  next
    case False
    from res obtain ms w where
      lp: "quiescence_loop (quiescence_search ops g k) ops beta ms (length ms) ?v = Some w"
      and v: "v = q_best w"
      unfolding Suc
      by (simp only: quiescence_search_captures [OF live False]) (auto split: option.splits)
    from quiescence_loop_best_mono [OF lp] show ?thesis by (simp add: v)
  qed
qed

subsection \<open>\<^verbatim>\<open>alpha_beta_prune\<close> returns\<close>

lemma board_ab_entered [simp]: "board (ab_entered t) = board t"
  by (simp add: ab_entered_def)

lemma order_moves_total:
  assumes "\<forall>m\<in>set ms. squares (board t) (MOVE_GET_FROM ops m) \<noteq> 0"
  shows "\<exists>ms' t'. order_moves ops t ms = Some (ms', t')"
proof -
  define first where "first =
            (if ply t = 1
             then (let (ms1, vs) = order_by_value ms
                                    (map (\<lambda>k. depth_one_values t (int k)) [0..<length ms]) (length ms)
                   in Some (ms1, t\<lparr>depth_one_values :=
                              (\<lambda>k. if 0 \<le> k \<and> k < int (length ms) then vs ! nat k
                                   else depth_one_values t k)\<rparr>))
             else (case basic_heuristic ops t ms of
                     None \<Rightarrow> None | Some ms1 \<Rightarrow> Some (ms1, t)))"
  have "\<exists>ms1 t1. first = Some (ms1, t1) \<and> mset ms1 = mset ms \<and> board t1 = board t"
  proof (cases "ply t = 1")
    case True
    then show ?thesis
      using order_by_value_mset [of "length ms" ms]
      by (simp add: first_def split_beta)
  next
    case False
    from basic_heuristic_total [OF assms] obtain ms1 where h: "basic_heuristic ops t ms = Some ms1"
      by blast
    with False basic_heuristic_mset [OF h] show ?thesis by (simp add: first_def)
  qed
  then obtain ms1 t1 where f: "first = Some (ms1, t1)" and m: "mset ms1 = mset ms"
    and b: "board t1 = board t" by blast
  have "set ms1 = set ms" using m by (rule mset_eq_setD)
  with assms b have "\<forall>m\<in>set ms1. squares (board t1) (MOVE_GET_FROM ops m) \<noteq> 0" by simp
  from basic_heuristic_total [OF this] obtain ms2 where "basic_heuristic ops t1 ms1 = Some ms2"
    by blast
  with f show ?thesis
    by (simp add: order_moves_def Let_def first_def [symmetric])
qed

lemma pv_within_refl: "pv_within K p p"
  by (simp add: pv_within_def split: pv_arg.splits)

lemma pv_within_trans: "pv_within K p q \<Longrightarrow> pv_within K q r \<Longrightarrow> pv_within K p r"
  by (auto simp: pv_within_def split: pv_arg.splits)

lemma pv_within_write:
  "length_within K (f (read_pv p t)) \<Longrightarrow> pv_within K p (fst (write_pv f p t))"
  by (simp add: pv_within_def write_pv_def read_pv_def split: pv_arg.splits)

lemma pv_within_caller:
  "pv_within K (Caller_lpv l) p' \<Longrightarrow> length_within K l \<Longrightarrow>
   \<exists>l'. p' = Caller_lpv l' \<and> length_within K l'"
  by (auto simp: pv_within_def split: pv_arg.splits)

lemma search_child_total:
  assumes r: "\<And>p a b s. board s = B \<Longrightarrow>
                \<exists>r p' s'. rec p (depth - 1) a b s = Some (r, p', s') \<and> board s' = B
                          \<and> pv_within K p p'"
    and t: "board t = B"
    and l: "length_within K lpv"
  shows "\<exists>val lpv' t'. search_child rec depth beta fpv i alpha lpv t = Some (val, lpv', t')
                      \<and> board t' = B \<and> length_within K lpv'"
proof (cases "i \<noteq> 0 \<and> fpv")
  case False
  from r [OF t, of "Caller_lpv lpv" "- beta" "- alpha"] obtain r0 p0 s0 where
    c0: "rec (Caller_lpv lpv) (depth - 1) (- beta) (- alpha) t = Some (r0, p0, s0)"
    and b0: "board s0 = B" and w0: "pv_within K (Caller_lpv lpv) p0"
    by blast
  from pv_within_caller [OF w0 l] obtain l0 where "p0 = Caller_lpv l0" "length_within K l0"
    by blast
  with False c0 b0 show ?thesis by (auto simp: search_child_def read_pv_def)
next
  case True
  from r [OF t, of "Caller_lpv lpv" "- alpha - 1" "- alpha"] obtain r1 p1 t1 where
    c1: "rec (Caller_lpv lpv) (depth - 1) (- alpha - 1) (- alpha) t = Some (r1, p1, t1)"
    and b1: "board t1 = B" and w1: "pv_within K (Caller_lpv lpv) p1"
    by blast
  from pv_within_caller [OF w1 l] obtain l1 where p1: "p1 = Caller_lpv l1"
    and k1: "length_within K l1"
    by blast
  have rd: "read_pv p1 t1 = l1" by (simp add: p1 read_pv_def)
  from r [OF b1, of "Caller_lpv l1" "- beta" "- (- r1)"] obtain r2 p2 t2 where
    c2: "rec (Caller_lpv l1) (depth - 1) (- beta) (- (- r1)) t1 = Some (r2, p2, t2)"
    and b2: "board t2 = B" and w2: "pv_within K (Caller_lpv l1) p2"
    by blast
  from pv_within_caller [OF w2 k1] obtain l2 where p2: "p2 = Caller_lpv l2"
    and k2: "length_within K l2"
    by blast
  have rd2: "read_pv p2 t2 = l2" by (simp add: p2 read_pv_def)
  from True c1 b1 c2 b2 k1 k2 show ?thesis by (auto simp: search_child_def rd rd2)
qed

lemma child_searched_total:
  assumes "length_within K lpv" and "K + 1 \<le> LineSize ops"
  shows "\<exists>v1. child_searched ops m i val lpv t2 v = Some v1 \<and> board (a_tree v1) = board t2
              \<and> a_lpv v1 = lpv \<and> pv_within (K + 1) (a_pv v) (a_pv v1)"
  using assms
  by (auto simp: child_searched_def Let_def prepend_pv_def length_within_def pv_within_def
      write_pv_def read_pv_def split: pv_arg.splits)

lemma alpha_beta_loop_total:
  assumes inv: "exact_inverses ops"
    and bound: "K + 1 \<le> LineSize ops"
    and r: "\<And>m p a b s. m \<in> set ms \<Longrightarrow> board s = apply_move ops B m \<Longrightarrow>
                \<exists>r p' s'. rec p (depth - 1) a b s = Some (r, p', s') \<and> board s' = board s
                          \<and> pv_within K p p'"
  shows "board (a_tree v) = B \<Longrightarrow> length_within K (a_lpv v) \<Longrightarrow>
         \<exists>v'. alpha_beta_loop rec ops depth beta fpv ms i v = Some v' \<and> board (a_tree v') = B
              \<and> pv_within (K + 1) (a_pv v) (a_pv v')"
  using r
proof (induction ms arbitrary: i v)
  case Nil
  then show ?case by (simp add: pv_within_refl)
next
  case (Cons m ms)
  let ?t1 = "do_apply ops (a_tree v) m"
  let ?legal = "is_not_in_check ops (apply_move ops (board (a_tree v)) m)
                  (c_not (turn (apply_move ops (board (a_tree v)) m)))"
  have undo: "revert_move ops (apply_move ops B m) m = B"
    using inv by (simp add: exact_inverses_def)
  have rest: "\<exists>v'. alpha_beta_loop rec ops depth beta fpv ms (Suc i) w = Some v'
                \<and> board (a_tree v') = B \<and> pv_within (K + 1) (a_pv w) (a_pv v')"
    if "board (a_tree w) = B" "length_within K (a_lpv w)" for w
    using Cons.IH [OF that] Cons.prems(3) by simp
  show ?case
  proof (cases ?legal)
    case False
    from rest [of "v\<lparr>a_tree := do_revert ops ?t1 m\<rparr>"] show ?thesis
      by (simp only: alpha_beta_loop_illegal [OF False])
        (simp add: Cons.prems(1) Cons.prems(2) undo)
  next
    case True
    have "\<exists>val lpv' t'. search_child rec depth beta fpv i (a_alpha v) (a_lpv v) ?t1
                 = Some (val, lpv', t') \<and> board t' = apply_move ops B m \<and> length_within K lpv'"
    proof (rule search_child_total)
      show "\<exists>r p' s'. rec p (depth - 1) a b s = Some (r, p', s') \<and> board s' = apply_move ops B m
                \<and> pv_within K p p'"
        if "board s = apply_move ops B m" for p a b s
        using Cons.prems(3) [of m s p a b] that by simp
      show "board ?t1 = apply_move ops B m" by (simp add: Cons.prems(1))
      show "length_within K (a_lpv v)" by (rule Cons.prems(2))
    qed
    then obtain val lpv t2 where
      sc: "search_child rec depth beta fpv i (a_alpha v) (a_lpv v) ?t1 = Some (val, lpv, t2)"
      and b2: "board t2 = apply_move ops B m"
      and k2: "length_within K lpv"
      by blast
    from child_searched_total [OF k2 bound, of m i val t2 v] obtain v1 where
      cs: "child_searched ops m i val lpv t2 v = Some v1"
      and b3: "board (a_tree v1) = board t2"
      and l3: "a_lpv v1 = lpv"
      and w3: "pv_within (K + 1) (a_pv v) (a_pv v1)"
      by blast
    note step = alpha_beta_loop_legal [where rec = rec and ops = ops and v = v and m = m
        and ms = ms and i = i and beta = beta and depth = depth and fpv = fpv, OF True sc cs]
    show ?thesis
    proof (cases "a_alpha v1 > beta")
      case cut: True
      show ?thesis by (simp only: step cut if_True) (simp add: b3 b2 undo w3)
    next
      case False
      have "board (a_tree (v1\<lparr>a_tree := do_revert ops (a_tree v1) m\<rparr>)) = B"
        by (simp add: b3 b2 undo)
      moreover have "length_within K (a_lpv (v1\<lparr>a_tree := do_revert ops (a_tree v1) m\<rparr>))"
        by (simp add: l3 k2)
      ultimately obtain v' where
        "alpha_beta_loop rec ops depth beta fpv ms (Suc i)
           (v1\<lparr>a_tree := do_revert ops (a_tree v1) m\<rparr>) = Some v'"
        "board (a_tree v') = B" "pv_within (K + 1) (a_pv v1) (a_pv v')"
        using rest [of "v1\<lparr>a_tree := do_revert ops (a_tree v1) m\<rparr>"] by auto
      with pv_within_trans [OF w3] show ?thesis
        by (simp only: step False if_False) blast
    qed
  qed
qed

lemma alpha_beta_prune_total:
  assumes inv: "exact_inverses ops"
    and shrink: "captures_shrink ops \<mu>"
    and mover: "captures_have_mover ops"
    and keep: "moves_keep ops \<mu>"
    and mover2: "moves_have_mover ops"
    and stack: "stack_lengths ops G"
  shows "0 \<le> depth \<Longrightarrow> int G + depth \<le> LineSize ops \<Longrightarrow> nat depth + \<mu> (board t) + 1 < n \<Longrightarrow>
         \<exists>r pv' t'. alpha_beta_prune ops g n pv depth alpha beta t = Some (r, pv', t')
                   \<and> board t' = board t \<and> pv_within (int G + depth) pv pv'"
proof (induction n arbitrary: pv depth alpha beta t)
  case 0
  then show ?case by simp
next
  case (Suc n)
  show ?case
  proof (cases "EndTime g < time_now ops (time_calls t)")
    case True
    show ?thesis
    proof -
      obtain p' t' where w: "write_pv (\<lambda>p. p\<lparr>length_pv := - 1\<rparr>) pv (ab_entered t) = (p', t')"
        by (cases "write_pv (\<lambda>p. p\<lparr>length_pv := - 1\<rparr>) pv (ab_entered t)")
      have "pv_within (int G + depth) pv
              (fst (write_pv (\<lambda>p. p\<lparr>length_pv := - 1\<rparr>) pv (ab_entered t)))"
        using Suc.prems(1) by (intro pv_within_write) (simp add: length_within_def)
      then have "pv_within (int G + depth) pv p'" by (simp add: w)
      with write_pv_board [OF w] show ?thesis
        by (simp only: alpha_beta_prune_expired [OF True] w) simp
    qed
  next
    case live: False
    show ?thesis
    proof (cases "depth = 0")
      case True
      let ?w = "write_pv (\<lambda>p. p\<lparr>length_pv := 0\<rparr>) pv (t\<lparr>time_calls := Suc (time_calls t)\<rparr>)"
      let ?t4 = "snd ?w"
      have "\<mu> (board ?t4) < n" using Suc.prems(3) by simp
      from quiescence_search_total [OF inv shrink mover this, of g alpha beta]
      obtain r t5 where "quiescence_search ops g n alpha beta ?t4 = Some (r, t5)"
        "board t5 = board t" by auto
      moreover have "pv_within (int G + 0) pv (fst ?w)"
        by (intro pv_within_write) (simp add: length_within_def)
      ultimately show ?thesis
        unfolding True by (simp only: alpha_beta_prune_leaf [OF live]) simp
    next
      case False
      let ?t3 = "(ab_entered t)\<lparr>ply := ply t + 1\<rparr>"
      let ?gen = "gen_all_moves ops (board t)"
      let ?K = "int G + (depth - 1)"
      have "\<forall>m\<in>set ?gen. squares (board ?t3) (MOVE_GET_FROM ops m) \<noteq> 0"
        using mover2 by (simp add: moves_have_mover_def)
      from order_moves_total [OF this] obtain ms t4 where
        om: "order_moves ops ?t3 ?gen = Some (ms, t4)" by blast
      have sm: "set ms = set ?gen" using order_moves_mset [OF om] by (rule mset_eq_setD)
      have b4: "board t4 = board t" using board_order_moves [OF om] by simp
      have K1: "?K + 1 = int G + depth" by simp
      define f where "f = (case ms of [] \<Rightarrow> False
                     | m0 # _ \<Rightarrow> line (principle_variation t4) (ply t4 - 1) = m0)"
      define v0 where "v0 = \<lparr>a_tree = t4, a_pv = pv, a_lpv = stack_pv ops (time_calls t),
                     a_alpha = alpha, a_best = - CheckMate ops, a_valid_size = 0\<rparr>"
      have "\<exists>v'. alpha_beta_loop (alpha_beta_prune ops g n) ops depth beta f ms 0 v0 = Some v'
              \<and> board (a_tree v') = board t \<and> pv_within (?K + 1) (a_pv v0) (a_pv v')"
      proof (rule alpha_beta_loop_total [OF inv])
        show "?K + 1 \<le> LineSize ops" using Suc.prems(2) by simp
        show "board (a_tree v0) = board t" by (simp add: v0_def b4)
        show "length_within ?K (a_lpv v0)"
        proof -
          from stack have "- 1 \<le> length_pv (stack_pv ops (time_calls t))"
            and "length_pv (stack_pv ops (time_calls t)) \<le> int G"
            by (simp_all add: stack_lengths_def)
          with Suc.prems(1) False show ?thesis by (simp add: v0_def length_within_def)
        qed
        show "\<exists>r p' s'. alpha_beta_prune ops g n p (depth - 1) a b s = Some (r, p', s')
                  \<and> board s' = board s \<and> pv_within ?K p p'"
          if "m \<in> set ms" "board s = apply_move ops (board t) m" for m p a b s
        proof (rule Suc.IH)
          show "0 \<le> depth - 1" using Suc.prems(1) False by simp
          show "int G + (depth - 1) \<le> LineSize ops" using Suc.prems(2) by simp
          have "\<mu> (apply_move ops (board t) m) \<le> \<mu> (board t)"
            using keep that(1) sm unfolding moves_keep_def by blast
          moreover have "nat (depth - 1) + 1 = nat depth" using Suc.prems(1) False by simp
          ultimately show "nat (depth - 1) + \<mu> (board s) + 1 < n"
            using Suc.prems(3) that(2) by simp
        qed
      qed
      then obtain v where
        lp: "alpha_beta_loop (alpha_beta_prune ops g n) ops depth beta f ms 0 v0 = Some v"
        and bv: "board (a_tree v) = board t"
        and wv: "pv_within (int G + depth) pv (a_pv v)"
        by (auto simp: K1 v0_def)
      show ?thesis
        by (simp only: alpha_beta_prune_inner [OF live False] om option.case prod.case
            f_def [symmetric] v0_def [symmetric] lp) (simp add: bv wv)
    qed
  qed
qed

subsection \<open>The claims\<close>



text \<open>
  Claim C9. Let the deadline not have expired when \<^verbatim>\<open>quiescence_search\<close> is entered (as it
  has not when it expires at no node of the call). Then the value that the call returns
  is at least \<^verbatim>\<open>evaluate_board\<close> of the position, for every \<open>alpha\<close>, the one standing for
  minus infinity included, and whatever the collaborators do. And the call does return
  when the collaborators behave: \<^verbatim>\<open>revert_move\<close> undoes \<^verbatim>\<open>apply_move\<close>, every capture lowers a
  measure \<open>\<mu>\<close> of the board, the origin square of a capture is not zero, and the recursion
  may go deeper than \<open>\<mu>\<close> of the position.
\<close>

theorem quiescence_stand_pat_lower_bound:
  assumes "\<not> EndTime g < time_now ops (time_calls t)"
  shows "(quiescence_search ops g n alpha beta t = Some (v, t')
            \<longrightarrow> evaluate_board (evaluation ops) (board t) \<le> v)
       \<and> (exact_inverses ops \<and> captures_shrink ops \<mu> \<and> captures_have_mover ops
            \<and> \<mu> (board t) < n
            \<longrightarrow> (\<exists>w s. quiescence_search ops g n alpha beta t = Some (w, s)
                       \<and> evaluate_board (evaluation ops) (board t) \<le> w))"
proof (intro conjI impI)
  assume "quiescence_search ops g n alpha beta t = Some (v, t')"
  with assms show "evaluate_board (evaluation ops) (board t) \<le> v"
    by (rule quiescence_search_lower_bound)
next
  assume h: "exact_inverses ops \<and> captures_shrink ops \<mu> \<and> captures_have_mover ops
            \<and> \<mu> (board t) < n"
  then have "exact_inverses ops" "captures_shrink ops \<mu>" "captures_have_mover ops"
    "\<mu> (board t) < n" by simp_all
  from quiescence_search_total [OF this, of g alpha beta] assms
  show "\<exists>w s. quiescence_search ops g n alpha beta t = Some (w, s)
                       \<and> evaluate_board (evaluation ops) (board t) \<le> w"
    by blast
qed

theorem quiescence_stand_pat_lower_bound_witness:
  "\<not> EndTime toy_globals < time_now toy (time_calls toy_tree)
   \<and> exact_inverses toy \<and> captures_shrink toy toy_measure \<and> captures_have_mover toy
   \<and> toy_measure (board toy_tree) < 5
   \<and> (\<exists>w s. quiescence_search toy toy_globals 5 (- CheckMate toy) (CheckMate toy) toy_tree
                = Some (w, s)
             \<and> evaluate_board (evaluation toy) (board toy_tree) \<le> w)"
proof -
  have live: "\<not> EndTime toy_globals < time_now toy (time_calls toy_tree)"
    by code_simp
  have fuel: "toy_measure (board toy_tree) < 5"
    by code_simp
  from quiescence_stand_pat_lower_bound [OF live, where \<mu> = toy_measure and n = 5
      and alpha = "- CheckMate toy" and beta = "CheckMate toy"]
  show ?thesis using toy_inverses toy_shrink toy_mover live fuel by blast
qed

text \<open>
  Claim C4 says that \<^verbatim>\<open>quiescence_search\<close> returns the stand-pat value at once when
  \<open>alpha \<ge> beta\<close> after the update of \<open>alpha\<close>. The test in the code is
  \<^verbatim>\<open>if (alpha > beta) return best;\<close>, so with \<open>alpha = beta\<close> the captures are searched. In
  the position below the stand-pat value is 0 and \<open>alpha = beta = 0\<close>; the call applies the
  capture 1 and returns 100.
\<close>

theorem quiescence_stand_pat_equal_counterexample:
  "\<not> EndTime toy_globals < time_now toy (time_calls toy_tree)
   \<and> evaluate_board (evaluation toy) (board toy_tree) = 0
   \<and> max 0 (evaluate_board (evaluation toy) (board toy_tree)) \<ge> 0
   \<and> map_option fst (quiescence_search toy toy_globals 2 0 0 toy_tree) = Some 100
   \<and> map_option fst (quiescence_search toy toy_globals 2 0 0 toy_tree)
       \<noteq> Some (evaluate_board (evaluation toy) (board toy_tree))
   \<and> map_option (applied \<circ> snd) (quiescence_search toy toy_globals 2 0 0 toy_tree) = Some [1]"
  by code_simp

text \<open>
  Claim C4, amended. When the deadline has not expired and, after the update of \<open>alpha\<close>
  by the stand-pat value, \<open>alpha > beta\<close> holds, \<^verbatim>\<open>quiescence_search\<close> returns the
  stand-pat value at once: of the tree only the two node counters (and the reading of
  the clock) have changed, no capture was generated, ordered or applied.
\<close>

theorem quiescence_stand_pat_cutoff:
  assumes "\<not> EndTime g < time_now ops (time_calls t)"
    and "beta < max alpha (evaluate_board (evaluation ops) (board t))"
  shows "quiescence_search ops g (Suc n) alpha beta t
           = Some (evaluate_board (evaluation ops) (board t),
                   t\<lparr>raw_nodes := raw_nodes t + 1, quiescence_nodes := quiescence_nodes t + 1,
                     time_calls := Suc (time_calls t)\<rparr>)"
  using quiescence_search_stand_pat [OF assms] by (simp add: qs_entered_def)

theorem quiescence_stand_pat_cutoff_witness:
  "\<not> EndTime toy_globals < time_now toy (time_calls toy_tree)
   \<and> (10 :: int) < max 50 (evaluate_board (evaluation toy) (board toy_tree))
   \<and> quiescence_search toy toy_globals (Suc 0) 50 10 toy_tree
       = Some (evaluate_board (evaluation toy) (board toy_tree),
               toy_tree\<lparr>raw_nodes := raw_nodes toy_tree + 1,
                        quiescence_nodes := quiescence_nodes toy_tree + 1,
                        time_calls := Suc (time_calls toy_tree)\<rparr>)"
proof -
  have live: "\<not> EndTime toy_globals < time_now toy (time_calls toy_tree)"
    by code_simp
  have cut: "(10 :: int) < max 50 (evaluate_board (evaluation toy) (board toy_tree))"
    by code_simp
  from quiescence_stand_pat_cutoff [OF live cut, of 0] live cut show ?thesis by blast
qed




text \<open>
  Claim C6 says that an iteration whose root call aborts leaves the committed principal
  variation unchanged. \<^verbatim>\<open>get_best_move\<close> passes \<^verbatim>\<open>&(tree.principle_variation)\<close> to the root
  call, so the sentinel that signals the abort is written into the committed variation
  itself. Below, the deadline is 10 and the clock reads 11 when the root call is entered:
  the committed variation had length 1 before the call and has length \<open>-1\<close> after it.
\<close>

theorem root_abort_changes_pv_counterexample:
  "EndTime toy_globals < time_now toy (time_calls late_tree)
   \<and> length_pv (principle_variation late_tree) = 1
   \<and> map_option (\<lambda>r. length_pv (principle_variation (snd (snd r))))
        (alpha_beta_prune toy toy_globals 1 Tree_pv 2 (- 32000) 32000 late_tree) = Some (- 1)
   \<and> map_option (\<lambda>r. length_pv (principle_variation (snd (snd r))))
        (alpha_beta_prune toy toy_globals 1 Tree_pv 2 (- 32000) 32000 late_tree)
       \<noteq> Some (length_pv (principle_variation late_tree))"
  by code_simp

text \<open>
  Claim C6, amended. If the deadline has expired when the root call of an iteration is
  entered, the call returns the abort score and leaves the moves of the committed
  principal variation (the array \<^verbatim>\<open>line\<close>, so also \<^verbatim>\<open>line[0]\<close>) as they were; it overwrites
  the length of the variation with \<open>-1\<close> and counts the node. With a clock that does not
  run backwards the loop of \<^verbatim>\<open>get_best_move\<close> then ends, with that tree, and
  \<^verbatim>\<open>get_best_move\<close> returns \<^verbatim>\<open>line[0]\<close> of it.
\<close>

theorem root_abort_keeps_line:
  assumes "depth < MaxDepth ops" and "EndTime g < time_now ops (time_calls t)"
    and "mono (time_now ops)"
  shows "alpha_beta_prune ops g (Suc n) Tree_pv depth (- CheckMate ops) (CheckMate ops) t
           = Some (abort_score ops g t, Tree_pv,
                   t\<lparr>raw_nodes := raw_nodes t + 1, alpha_beta_nodes := alpha_beta_nodes t + 1,
                     time_calls := Suc (time_calls t),
                     principle_variation := (principle_variation t)\<lparr>length_pv := - 1\<rparr>\<rparr>)
         \<and> deepening ops g (Suc n) depth t
           = Some (t\<lparr>raw_nodes := raw_nodes t + 1, alpha_beta_nodes := alpha_beta_nodes t + 1,
                     time_calls := time_calls t + 3,
                     principle_variation := (principle_variation t)\<lparr>length_pv := - 1\<rparr>\<rparr>)"
  using deepening_root_abort [OF assms] by blast

theorem root_abort_keeps_line_witness:
  "2 < MaxDepth toy \<and> EndTime toy_globals < time_now toy (time_calls late_tree)
   \<and> mono (time_now toy)
   \<and> deepening toy toy_globals (Suc 0) 2 late_tree
       = Some (late_tree\<lparr>raw_nodes := raw_nodes late_tree + 1,
                 alpha_beta_nodes := alpha_beta_nodes late_tree + 1,
                 time_calls := time_calls late_tree + 3,
                 principle_variation := (principle_variation late_tree)\<lparr>length_pv := - 1\<rparr>\<rparr>)"
proof -
  have d: "2 < MaxDepth toy" by (simp add: toy_def)
  have e: "EndTime toy_globals < time_now toy (time_calls late_tree)" by code_simp
  have m: "mono (time_now toy)" by (simp add: toy_def mono_def)
  from root_abort_keeps_line [OF d e m, of 0] d e m show ?thesis by blast
qed

text \<open>The globals that \<^verbatim>\<open>get_best_move\<close> leaves are those of lines 21 to 24.\<close>

lemma get_best_move_sets_globals:
  "get_best_move ops fuel t b alloted_time = Some (m, g, t') \<Longrightarrow>
   g = get_best_move_globals ops t b alloted_time"
  by (auto simp: get_best_move_def Let_def split: option.splits)

text \<open>
  Claim C1 says that the deadline is the start time plus the time budget that the caller
  passes. The first statement of \<^verbatim>\<open>get_best_move\<close> is \<^verbatim>\<open>alloted_time = 10;\<close>, which
  overwrites the parameter: whatever the budget, \<^verbatim>\<open>StartTime\<close> is the reading of the clock
  and \<^verbatim>\<open>EndTime\<close> is ten seconds later. Called with a budget of 5 when the clock reads 0,
  \<^verbatim>\<open>get_best_move\<close> sets \<^verbatim>\<open>EndTime\<close> to 10, not to 5.
\<close>

theorem get_best_move_ignores_budget:
  "StartTime (get_best_move_globals ops t b alloted_time) = time_now ops (time_calls t)
   \<and> EndTime (get_best_move_globals ops t b alloted_time) = time_now ops (time_calls t) + 10
   \<and> EndTime (get_best_move_globals toy toy_tree toy_board 5) = 10"
  by (simp add: get_best_move_globals_def Let_def toy_def toy_tree_def)

text \<open>
  Claim C2 says that at the root the moves are searched in descending order of
  \<^verbatim>\<open>depth_one_values\<close>. Line 105 sorts them so, but line 107 then sorts them again by
  \<^verbatim>\<open>basic_heuristic\<close>, at the root as everywhere. Below, the generator yields the moves 10
  and 20, the values of the last iteration are 30 and 25, and 20 is the move of the
  principal variation. Sorted by the values the order is 10, 20; the order in which
  \<^verbatim>\<open>alpha_beta_prune\<close> searches the moves is 20, 10, against the values 25, 30 that line 105
  left beside them.
\<close>

theorem root_order_is_heuristic:
  "gen_all_moves toy (board root_tree) = [10, 20]
   \<and> map (depth_one_values root_tree) [0, 1] = [30, 25]
   \<and> order_by_value [10, 20] [30, 25] 2 = ([10, 20], [30, 25])
   \<and> map_option fst (order_moves toy (root_tree\<lparr>ply := 1\<rparr>) [10, 20]) = Some [20, 10]
   \<and> map_option (\<lambda>r. applied (snd (snd r)))
        (alpha_beta_prune toy toy_globals 3 Tree_pv 1 (- 32000) 32000 root_tree) = Some [20, 10]"
  by code_simp

text \<open>
  Claim C3 says that \<^verbatim>\<open>quiescence_search\<close> examines the captures best first. The sort
  puts the best capture at index 0, and the loop \<^verbatim>\<open>for (i = size-1; i >= 0; i--)\<close> starts
  at the other end. Below, the captures 1 and 2 have the scores 1 and 2;
  \<^verbatim>\<open>basic_heuristic\<close> orders them 2, 1, and the search applies 1 first and 2 second.
\<close>

theorem quiescence_examines_worst_first:
  "gen_all_captures toy (board toy_tree) = [1, 2]
   \<and> heuristic_value toy (toy_tree\<lparr>ply := 1\<rparr>) 1 = Some 1
   \<and> heuristic_value toy (toy_tree\<lparr>ply := 1\<rparr>) 2 = Some 2
   \<and> basic_heuristic toy (toy_tree\<lparr>ply := 1\<rparr>) [1, 2] = Some [2, 1]
   \<and> map_option (applied \<circ> snd)
        (quiescence_search toy toy_globals 2 (- 32000) 32000 toy_tree) = Some [1, 2]"
  by code_simp

subsection \<open>Further properties\<close>

text \<open>
  Both searches return. Let \<^verbatim>\<open>revert_move\<close> undo \<^verbatim>\<open>apply_move\<close>, let every capture lower a
  measure \<open>\<mu>\<close> of the board and no generated move raise it, and let the origin square of
  every generated move hold a piece. Then \<^verbatim>\<open>quiescence_search\<close> returns. Let, moreover, the
  length that the local \<^verbatim>\<open>lpv\<close> of a call starts with always be \<open>-1\<close> or between 0 and \<open>G\<close>,
  and let a variation have room for \<open>G\<close> moves more than the depth. Then no copy of line
  136 leaves the arrays, and \<^verbatim>\<open>alpha_beta_prune\<close> returns for every depth that is not
  negative, when the recursion may go deeper than the depth plus \<open>\<mu>\<close> of the position plus
  one; and the board is then as it was. Without the hypothesis on the lengths there are
  calls with no result: see \<open>indeterminate_length_overruns\<close>.
\<close>

theorem searches_return:
  assumes "exact_inverses ops" and "captures_shrink ops \<mu>" and "captures_have_mover ops"
    and "moves_keep ops \<mu>" and "moves_have_mover ops"
    and "stack_lengths ops G" and "0 \<le> depth" and "int G + depth \<le> LineSize ops"
    and "nat depth + \<mu> (board t) + 1 < n"
  shows "(\<exists>r t'. quiescence_search ops g n alpha beta t = Some (r, t') \<and> board t' = board t)
       \<and> (\<exists>r pv' t'. alpha_beta_prune ops g n pv depth alpha beta t = Some (r, pv', t')
                     \<and> board t' = board t)"
proof -
  have "\<mu> (board t) < n" using assms(9) by simp
  from quiescence_search_total [OF assms(1-3) this, of g alpha beta]
    alpha_beta_prune_total [OF assms, of g pv alpha beta]
  show ?thesis by blast
qed

theorem searches_return_witness:
  "exact_inverses toy_zeroed \<and> captures_shrink toy_zeroed toy_measure
   \<and> captures_have_mover toy_zeroed
   \<and> moves_keep toy_zeroed toy_measure \<and> moves_have_mover toy_zeroed
   \<and> stack_lengths toy_zeroed 0
   \<and> (0 :: int) \<le> 3 \<and> int 0 + 3 \<le> LineSize toy_zeroed
   \<and> nat 3 + toy_measure (board toy_tree) + 1 < 9
   \<and> (\<exists>r pv' t'. alpha_beta_prune toy_zeroed toy_globals 9 Tree_pv 3 (- 32000) 32000 toy_tree
                    = Some (r, pv', t') \<and> board t' = board toy_tree)"
proof -
  have i: "exact_inverses toy_zeroed"
    by (simp add: exact_inverses_def toy_zeroed_def toy_def)
  have s: "captures_shrink toy_zeroed toy_measure"
    using toy_shrink by (simp add: captures_shrink_def toy_zeroed_def)
  have c: "captures_have_mover toy_zeroed"
    using toy_mover by (simp add: captures_have_mover_def toy_zeroed_def)
  have k: "moves_keep toy_zeroed toy_measure"
    by (auto simp: moves_keep_def toy_zeroed_def toy_def toy_measure_def)
  have m: "moves_have_mover toy_zeroed"
    by (auto simp: moves_have_mover_def toy_zeroed_def toy_def)
  have l: "stack_lengths toy_zeroed 0"
    by (simp add: stack_lengths_def toy_zeroed_def)
  have d: "(0 :: int) \<le> 3" by simp
  have b: "int 0 + 3 \<le> LineSize toy_zeroed" by (simp add: toy_zeroed_def toy_def)
  have f: "nat 3 + toy_measure (board toy_tree) + 1 < 9" by code_simp
  from searches_return [OF i s c k m l d b f]
  show ?thesis using i s c k m l d b f by blast
qed

text \<open>
  A call that reads a length that no call has written. At depth 2 the children of the
  root are searched at depth 1; there the side to move has no move, so the child
  returns without a write through its \<^verbatim>\<open>pv\<close>, and line 134 of the root reads what its
  local \<^verbatim>\<open>lpv\<close> held from the start. With the length \<open>-7\<close> there the copy of line 136 leaves
  the arrays, and the call has no result; the same call with the length 0 there returns.
\<close>

theorem indeterminate_length_overruns:
  "length_pv (stack_pv toy (time_calls toy_tree)) = - 7
   \<and> gen_all_moves toy (apply_move toy (board toy_tree) 10) = []
   \<and> alpha_beta_prune toy toy_globals 4 Tree_pv 2 (- 32000) 32000 toy_tree = None
   \<and> \<not> Option.is_none
         (alpha_beta_prune toy_zeroed toy_globals 4 Tree_pv 2 (- 32000) 32000 toy_tree)"
  by code_simp

text \<open>
  \<^verbatim>\<open>order_by_value\<close> permutes the moves: when the array holds at least \<^verbatim>\<open>size\<close> moves, the
  sorted array holds the same moves, each as often as before.
\<close>

theorem order_by_value_permutes:
  assumes "sz \<le> length moves"
  shows "mset (fst (order_by_value moves vals sz)) = mset moves"
  using assms by (rule order_by_value_mset)

theorem order_by_value_permutes_witness:
  "(3 :: nat) \<le> length [7, 8, 9 :: int]
   \<and> mset (fst (order_by_value [7, 8, 9] [1, 3, 2] 3)) = mset [7, 8, 9]
   \<and> fst (order_by_value [7, 8, 9] [1, 3, 2] 3) = [8, 9, 7]"
proof -
  have l: "(3 :: nat) \<le> length [7, 8, 9 :: int]" by simp
  have e: "fst (order_by_value [7, 8, 9] [1, 3, 2] 3) = [8, 9, 7]" by code_simp
  from order_by_value_permutes [OF l, of "[1, 3, 2]"] l e show ?thesis by blast
qed

end
